theory Spec2Isabelle
  imports Main
begin

unbundle bit_operations_syntax

section \<open>The asynchronous socket adapter of zmqtulip/core.py\<close>

text \<open>
  The class \<open>Socket\<close> of \<open>zmqtulip/core.py\<close> extends \<open>zmq.Socket\<close>. Its methods are
  embedded as functions on a record of the adapter's state. What lies outside the class is
  made explicit:
  \<^item> the underlying transport (\<open>super().send\<close>, \<open>super().recv\<close>) is a parameter: a function
    from the number of calls made so far and the arguments of the call to its outcome, so
    that every behaviour of the transport over time is one such function;
  \<^item> the futures of the event-loop library are a store from identifiers to their state;
  \<^item> the registrations of the loop for the socket's descriptor are fields of the state,
    updated the way the loop's \<open>add_writer\<close>, \<open>remove_writer\<close>, \<open>add_reader\<close> and
    \<open>remove_reader\<close> update its table.
\<close>

subsection \<open>Values, exceptions and futures\<close>

type_synonym bytes = "char list"

text \<open>What a caller may pass as \<open>data\<close>: a bytes object or something else.\<close>

datatype pyval = PyBytes bytes | PyStr string | PyInt int | PyNone

fun isinstance_bytes :: "pyval \<Rightarrow> bool" where
  "isinstance_bytes (PyBytes b) = True"
| "isinstance_bytes v = False"

datatype exc =
    ZMQError int
  | AssertionError
  | InvalidStateError
  | CancelledError
  | OtherError string

text \<open>The two constants of the transport library the class reads.\<close>

definition NOBLOCK :: int where
  "NOBLOCK = 1"

definition EAGAIN :: int where
  "EAGAIN = 11"

text \<open>A call either returns a value or raises.\<close>

datatype 'a pyresult = Return 'a | Raise exc

text \<open>The value a future is fulfilled with: what the transport's send or recv returned.\<close>

datatype fval = SendRes nat | RecvData bytes

datatype fstate = Pending | Result fval | Exception exc | Cancelled

subsection \<open>The adapter's state\<close>

text \<open>
  An entry of \<open>_buffer\<close> is the tuple \<open>(fut, data, flags, copy, track)\<close>. The arguments of a
  receive are \<open>(flags, copy, track)\<close>.
\<close>

type_synonym send_args = "bytes \<times> int \<times> bool \<times> bool"
type_synonym recv_args = "int \<times> bool \<times> bool"
type_synonym entry = "nat \<times> send_args"

type_synonym send_transport = "nat \<Rightarrow> send_args \<Rightarrow> nat pyresult"
type_synonym recv_transport = "nat \<Rightarrow> recv_args \<Rightarrow> bytes pyresult"

text \<open>
  \<open>buffer\<close> is \<open>self._buffer\<close>, head first. \<open>writer\<close> tells whether the loop holds a
  writer callback for \<open>self._sock_fd\<close> (it is always \<open>self._send_ready\<close>); \<open>reader\<close> is the
  reader callback the loop holds for it, if any: \<open>self._recv\<close> with the arguments
  \<open>fut, True, *args\<close>. \<open>sent\<close> and \<open>rcvd\<close> log the calls made on the underlying transport,
  oldest first; an entry of \<open>sent\<close> also records the future on whose behalf the call was
  made. \<open>reader_adds\<close> counts the calls of \<open>add_reader\<close>. \<open>closed\<close> is the closed flag of the
  underlying socket. \<open>writer_handles\<close> has one flag for every call of \<open>add_writer\<close>, oldest
  first: the handle the loop made for that call, \<open>True\<close> while the handle is registered and
  not cancelled.
\<close>

record sock =
  buffer :: "entry list"
  futs :: "nat \<rightharpoonup> fstate"
  next_fut :: nat
  writer :: bool
  reader :: "(nat \<times> recv_args) option"
  sent :: "entry list"
  rcvd :: "recv_args list"
  reader_adds :: nat
  closed :: bool
  writer_handles :: "bool list"

definition init_sock :: sock where
  "init_sock = \<lparr> buffer = [], futs = Map.empty, next_fut = 0, writer = False,
     reader = None, sent = [], rcvd = [], reader_adds = 0, closed = False,
     writer_handles = [] \<rparr>"

subsection \<open>Futures\<close>

text \<open>\<open>tulip.Future(loop=self._loop)\<close>: a fresh pending future.\<close>

definition new_future :: "sock \<Rightarrow> nat \<times> sock" where
  "new_future s =
     (next_fut s, s\<lparr>futs := (futs s)(next_fut s \<mapsto> Pending), next_fut := Suc (next_fut s)\<rparr>)"

definition cancelled :: "sock \<Rightarrow> nat \<Rightarrow> bool" where
  "cancelled s f = (futs s f = Some Cancelled)"

text \<open>Settling a future that is not pending raises \<open>InvalidStateError\<close>.\<close>

definition set_result :: "sock \<Rightarrow> nat \<Rightarrow> fval \<Rightarrow> exc + sock" where
  "set_result s f v =
     (if futs s f = Some Pending then Inr (s\<lparr>futs := (futs s)(f \<mapsto> Result v)\<rparr>)
      else Inl InvalidStateError)"

definition set_exception :: "sock \<Rightarrow> nat \<Rightarrow> exc \<Rightarrow> exc + sock" where
  "set_exception s f e =
     (if futs s f = Some Pending then Inr (s\<lparr>futs := (futs s)(f \<mapsto> Exception e)\<rparr>)
      else Inl InvalidStateError)"

text \<open>\<open>fut.cancel()\<close>, called by the owner of the future: only a pending future changes.\<close>

definition cancel :: "sock \<Rightarrow> nat \<Rightarrow> sock" where
  "cancel s f =
     (if futs s f = Some Pending then s\<lparr>futs := (futs s)(f \<mapsto> Cancelled)\<rparr> else s)"

subsection \<open>The loop's write registration\<close>

text \<open>
  \<open>self._loop.add_writer(self._sock_fd, self._send_ready)\<close>: the loop makes a handle for the
  callback and puts it in its table under the descriptor; a writer handle that was there
  is replaced and cancelled. \<open>self._loop.remove_writer(self._sock_fd)\<close> cancels the handle
  of the table, if any, and clears the entry.
\<close>

definition add_writer :: "sock \<Rightarrow> sock" where
  "add_writer s =
     s\<lparr>writer := True, writer_handles := map (\<lambda>h. False) (writer_handles s) @ [True]\<rparr>"

definition remove_writer :: "sock \<Rightarrow> sock" where
  "remove_writer s =
     s\<lparr>writer := False, writer_handles := map (\<lambda>h. False) (writer_handles s)\<rparr>"

text \<open>The number of writer handles that are active.\<close>

definition active_writers :: "sock \<Rightarrow> nat" where
  "active_writers s = length (filter (\<lambda>h. h) (writer_handles s))"

text \<open>
  The invariant of the registration: at most one handle is active, and the write callback
  is armed exactly when one is.
\<close>

definition one_writer :: "sock \<Rightarrow> bool" where
  "one_writer s = (active_writers s \<le> 1 \<and> writer s = (active_writers s = 1))"

subsection \<open>The underlying transport\<close>

definition super_send :: "send_transport \<Rightarrow> sock \<Rightarrow> nat \<Rightarrow> send_args \<Rightarrow> nat pyresult \<times> sock" where
  "super_send tr s f args = (tr (length (sent s)) args, s\<lparr>sent := sent s @ [(f, args)]\<rparr>)"

definition super_recv :: "recv_transport \<Rightarrow> sock \<Rightarrow> recv_args \<Rightarrow> bytes pyresult \<times> sock" where
  "super_recv rtr s args = (rtr (length (rcvd s)) args, s\<lparr>rcvd := rcvd s @ [args]\<rparr>)"

subsection \<open>Socket.send\<close>

text \<open>
  The result is \<open>Return (Some fut)\<close> where the method returns the future, \<open>Return None\<close>
  where it returns by a bare \<open>return\<close>, and \<open>Raise e\<close> where an exception leaves it.
\<close>

definition send :: "send_transport \<Rightarrow> sock \<Rightarrow> pyval \<Rightarrow> int \<Rightarrow> bool \<Rightarrow> bool
    \<Rightarrow> nat option pyresult \<times> sock" where
  "send tr s data flags copy track =
     (case data of
        PyBytes b \<Rightarrow>
          if b = [] then (Return None, s)
          else
            let (fut, s1) = new_future s in
            if buffer s1 = [] then
              if flags AND NOBLOCK \<noteq> 0 then
                (case super_send tr s1 fut (b, flags, copy, track) of
                   (Return res, s2) \<Rightarrow>
                     (case set_result s2 fut (SendRes res) of
                        Inr s3 \<Rightarrow> (Return (Some fut), s3)
                      | Inl e \<Rightarrow> (Raise e, s2))
                 | (Raise e, s2) \<Rightarrow> (Raise e, s2))
              else
                let flags' = flags OR NOBLOCK in
                (case super_send tr s1 fut (b, flags', copy, track) of
                   (Return res, s2) \<Rightarrow>
                     (case set_result s2 fut (SendRes res) of
                        Inr s3 \<Rightarrow> (Return (Some fut), s3)
                      | Inl e \<Rightarrow> (Raise e, s2))
                 | (Raise (ZMQError errno), s2) \<Rightarrow>
                     if errno \<noteq> EAGAIN then
                       (case set_exception s2 fut (ZMQError errno) of
                          Inr s3 \<Rightarrow> (Return None, s3)
                        | Inl e \<Rightarrow> (Raise e, s2))
                     else
                       let s3 = add_writer s2 in
                       (Return (Some fut),
                        s3\<lparr>buffer := buffer s3 @ [(fut, b, flags', copy, track)]\<rparr>)
                 | (Raise e, s2) \<Rightarrow> (Raise e, s2))
            else
              (Return (Some fut), s1\<lparr>buffer := buffer s1 @ [(fut, b, flags, copy, track)]\<rparr>)
      | _ \<Rightarrow> (Raise AssertionError, s))"

subsection \<open>Socket._send_ready\<close>

text \<open>
  The callback the loop runs when the descriptor is writable. The \<open>while\<close> loop is the
  recursion: an iteration that fulfils its future goes on with the rest of the queue, every
  other iteration returns. An \<open>InvalidStateError\<close> raised by \<open>fut.set_result\<close> inside the
  \<open>try\<close> is caught by \<open>except Exception\<close>, whose \<open>fut.set_exception\<close> then raises in turn.
\<close>

function u_send_ready :: "send_transport \<Rightarrow> sock \<Rightarrow> unit pyresult \<times> sock" where
  "u_send_ready tr s =
     (case buffer s of
        [] \<Rightarrow> (Return (), remove_writer s)
      | entry # rest \<Rightarrow>
          let s1 = s\<lparr>buffer := rest\<rparr>; fut = fst entry; args = snd entry in
          (case super_send tr s1 fut args of
             (Return res, s2) \<Rightarrow>
               (case set_result s2 fut (SendRes res) of
                  Inr s3 \<Rightarrow> u_send_ready tr s3
                | Inl e \<Rightarrow>
                    (case set_exception s2 fut e of
                       Inr s3 \<Rightarrow> (Return (), s3)
                     | Inl e' \<Rightarrow> (Raise e', s2)))
           | (Raise (ZMQError errno), s2) \<Rightarrow>
               if errno \<noteq> EAGAIN then
                 (case set_exception s2 fut (ZMQError errno) of
                    Inr s3 \<Rightarrow> (Return (), s3)
                  | Inl e' \<Rightarrow> (Raise e', s2))
               else (Return (), s2\<lparr>buffer := entry # buffer s2\<rparr>)
           | (Raise e, s2) \<Rightarrow>
               (case set_exception s2 fut e of
                  Inr s3 \<Rightarrow> (Return (), s3)
                | Inl e' \<Rightarrow> (Raise e', s2))))"
  by pat_completeness auto
termination
  by (relation "measure (\<lambda>(tr, s). length (buffer s))")
     (auto simp: set_result_def super_send_def split: if_splits)

declare u_send_ready.simps [simp del]

subsection \<open>Socket._recv and Socket.recv\<close>

definition u_recv :: "recv_transport \<Rightarrow> sock \<Rightarrow> nat \<Rightarrow> bool \<Rightarrow> recv_args \<Rightarrow> unit pyresult \<times> sock" where
  "u_recv rtr s fut registered args =
     (let s1 = (if registered then s\<lparr>reader := None\<rparr> else s) in
      if cancelled s1 fut then (Return (), s1)
      else
        (case super_recv rtr s1 args of
           (Return data, s2) \<Rightarrow>
             (case set_result s2 fut (RecvData data) of
                Inr s3 \<Rightarrow> (Return (), s3)
              | Inl e \<Rightarrow> (Raise e, s2))
         | (Raise (ZMQError errno), s2) \<Rightarrow>
             if errno \<noteq> EAGAIN then
               (case set_exception s2 fut (ZMQError errno) of
                  Inr s3 \<Rightarrow> (Return (), s3)
                | Inl e \<Rightarrow> (Raise e, s2))
             else
               (Return (), s2\<lparr>reader := Some (fut, args), reader_adds := Suc (reader_adds s2)\<rparr>)
         | (Raise e, s2) \<Rightarrow>
             (case set_exception s2 fut e of
                Inr s3 \<Rightarrow> (Return (), s3)
              | Inl e' \<Rightarrow> (Raise e', s2))))"

text \<open>
  \<open>recv\<close> is a coroutine: it runs up to \<open>yield from fut\<close>, which gives the future's outcome
  at once when the future is done and suspends the coroutine on it otherwise.
\<close>

datatype recv_result = Returned bytes | Raised exc | Awaiting nat

definition yield_from :: "sock \<Rightarrow> nat \<Rightarrow> recv_result" where
  "yield_from s fut =
     (case futs s fut of
        Some (Result (RecvData d)) \<Rightarrow> Returned d
      | Some (Exception e) \<Rightarrow> Raised e
      | Some Cancelled \<Rightarrow> Raised CancelledError
      | _ \<Rightarrow> Awaiting fut)"

definition recv :: "recv_transport \<Rightarrow> sock \<Rightarrow> int \<Rightarrow> bool \<Rightarrow> bool \<Rightarrow> recv_result \<times> sock" where
  "recv rtr s flags copy track =
     (if flags AND NOBLOCK \<noteq> 0 then
        (case super_recv rtr s (flags, copy, track) of
           (Return d, s1) \<Rightarrow> (Returned d, s1)
         | (Raise e, s1) \<Rightarrow> (Raised e, s1))
      else
        let flags' = flags OR NOBLOCK in
        (case super_recv rtr s (flags', copy, track) of
           (Return d, s1) \<Rightarrow> (Returned d, s1)
         | (Raise (ZMQError errno), s1) \<Rightarrow>
             if errno \<noteq> EAGAIN then (Raised (ZMQError errno), s1)
             else
               let (fut, s2) = new_future s1 in
               (case u_recv rtr s2 fut False (flags', copy, track) of
                  (Return u, s3) \<Rightarrow> (yield_from s3 fut, s3)
                | (Raise e, s3) \<Rightarrow> (Raised e, s3))
         | (Raise e, s1) \<Rightarrow> (Raised e, s1)))"

subsection \<open>The event loop's side\<close>

text \<open>
  The loop runs the callback registered for a direction when the descriptor is ready in
  that direction, and nothing when none is registered.
\<close>

definition writable :: "send_transport \<Rightarrow> sock \<Rightarrow> unit pyresult \<times> sock" where
  "writable tr s = (if writer s then u_send_ready tr s else (Return (), s))"

definition readable :: "recv_transport \<Rightarrow> sock \<Rightarrow> unit pyresult \<times> sock" where
  "readable rtr s =
     (case reader s of
        None \<Rightarrow> (Return (), s)
      | Some (fut, args) \<Rightarrow> u_recv rtr s fut True args)"

text \<open>The loop reports the descriptor readable \<open>n\<close> times in a row.\<close>

primrec readable_times :: "recv_transport \<Rightarrow> nat \<Rightarrow> sock \<Rightarrow> sock" where
  "readable_times rtr 0 s = s"
| "readable_times rtr (Suc n) s = readable_times rtr n (snd (readable rtr s))"

subsection \<open>Closing\<close>

text \<open>
  The class defines no \<open>close\<close> of its own: closing the adapter runs the \<open>close\<close> it
  inherits from \<open>zmq.Socket\<close>, which closes the underlying socket and knows none of the
  fields the class adds (\<open>_buffer\<close>, \<open>_loop\<close>, the futures).
\<close>

definition close :: "sock \<Rightarrow> sock" where
  "close s = s\<lparr>closed := True\<rparr>"

subsection \<open>Runs\<close>

text \<open>
  What can happen to an adapter: a caller calls \<open>send\<close> or \<open>recv\<close>, cancels a future or
  closes the socket, and the loop reports the descriptor writable or readable.
\<close>

datatype event =
    Send pyval int bool bool
  | Recv int bool bool
  | Writable
  | Readable
  | Cancel nat
  | Close

fun step :: "send_transport \<Rightarrow> recv_transport \<Rightarrow> sock \<Rightarrow> event \<Rightarrow> sock" where
  "step tr rtr s (Send d fl c t) = snd (send tr s d fl c t)"
| "step tr rtr s (Recv fl c t) = snd (recv rtr s fl c t)"
| "step tr rtr s Writable = snd (writable tr s)"
| "step tr rtr s Readable = snd (readable rtr s)"
| "step tr rtr s (Cancel f) = cancel s f"
| "step tr rtr s Close = close s"

definition run :: "send_transport \<Rightarrow> recv_transport \<Rightarrow> event list \<Rightarrow> sock" where
  "run tr rtr evs = foldl (step tr rtr) init_sock evs"

subsection \<open>The order of the queue and of the transport's log\<close>

text \<open>
  Futures are numbered in the order of the calls that create them, so the number of an
  entry's future is the rank of its \<open>send\<close> call. The invariant: the transport's log is in
  the order of the calls, the queue is in the order of the calls, no call of the log is
  later than a queued entry, and every number in use is below the next one to be given.
\<close>

definition fifo_inv :: "sock \<Rightarrow> bool" where
  "fifo_inv s =
     (sorted (map fst (sent s)) \<and> sorted_wrt (<) (map fst (buffer s))
      \<and> (\<forall>a\<in>set (sent s). \<forall>e\<in>set (buffer s). fst a \<le> fst e)
      \<and> (\<forall>e\<in>set (buffer s). fst e < next_fut s)
      \<and> (\<forall>a\<in>set (sent s). fst a < next_fut s))"

subsection \<open>Concrete transports and runs\<close>

text \<open>
  A transport given by the outcomes of its first calls; every later call would block.
\<close>

definition scripted :: "'a pyresult list \<Rightarrow> nat \<Rightarrow> 'b \<Rightarrow> 'a pyresult" where
  "scripted outcomes n args =
     (if n < length outcomes then outcomes ! n else Raise (ZMQError EAGAIN))"

text \<open>Three sends in a row; the second and the third ask for \<open>NOBLOCK\<close> themselves.\<close>

definition three_sends :: "event list" where
  "three_sends = [Send (PyBytes ''a'') 0 True False, Send (PyBytes ''b'') 1 True False,
      Send (PyBytes ''c'') 1 True False]"

text \<open>A send that is queued, and cancelled by its caller before the loop fires.\<close>

definition cancelled_send :: "event list" where
  "cancelled_send = [Send (PyBytes ''a'') 0 True False, Cancel 0]"

text \<open>
  A send that is queued and a receive that waits for the loop, and then the socket is
  closed.
\<close>

definition close_outstanding :: "event list" where
  "close_outstanding = [Send (PyBytes ''a'') 0 True False, Recv 0 True False, Close]"

text \<open>A send that is queued, and a firing of the write callback.\<close>

definition error_on_last :: "event list" where
  "error_on_last = [Send (PyBytes ''a'') 0 True False, Writable]"

text \<open>After it, another send whose first attempt would block.\<close>

definition send_after_error :: "event list" where
  "send_after_error = error_on_last @ [Send (PyBytes ''b'') 0 True False]"

text \<open>Three sends are queued and the caller cancels the second.\<close>

definition cancelled_sibling :: "event list" where
  "cancelled_sibling = three_sends @ [Cancel 1]"

section \<open>Properties\<close>

subsection \<open>What the loop's registration touches\<close>

lemma add_writer_fields [simp]:
  "buffer (add_writer s) = buffer s" "futs (add_writer s) = futs s"
  "next_fut (add_writer s) = next_fut s" "writer (add_writer s)"
  "reader (add_writer s) = reader s" "sent (add_writer s) = sent s"
  "rcvd (add_writer s) = rcvd s" "reader_adds (add_writer s) = reader_adds s"
  "closed (add_writer s) = closed s"
  by (simp_all add: add_writer_def)

lemma remove_writer_fields [simp]:
  "buffer (remove_writer s) = buffer s" "futs (remove_writer s) = futs s"
  "next_fut (remove_writer s) = next_fut s" "\<not> writer (remove_writer s)"
  "reader (remove_writer s) = reader s" "sent (remove_writer s) = sent s"
  "rcvd (remove_writer s) = rcvd s" "reader_adds (remove_writer s) = reader_adds s"
  "closed (remove_writer s) = closed s"
  by (simp_all add: remove_writer_def)

subsection \<open>One iteration of the drain\<close>

lemma u_send_ready_Nil:
  "buffer s = [] \<Longrightarrow> u_send_ready tr s = (Return (), remove_writer s)"
  by (subst u_send_ready.simps) simp

lemma u_send_ready_ok:
  "buffer s = (f, a) # rest \<Longrightarrow> tr (length (sent s)) a = Return r \<Longrightarrow> futs s f = Some Pending \<Longrightarrow>
   u_send_ready tr s =
     u_send_ready tr (s\<lparr>buffer := rest, sent := sent s @ [(f, a)],
                        futs := (futs s)(f \<mapsto> Result (SendRes r))\<rparr>)"
  by (subst u_send_ready.simps) (simp add: super_send_def set_result_def)

lemma u_send_ready_ok_done:
  "buffer s = (f, a) # rest \<Longrightarrow> tr (length (sent s)) a = Return r \<Longrightarrow> futs s f \<noteq> Some Pending \<Longrightarrow>
   u_send_ready tr s = (Raise InvalidStateError, s\<lparr>buffer := rest, sent := sent s @ [(f, a)]\<rparr>)"
  by (subst u_send_ready.simps) (simp add: super_send_def set_result_def set_exception_def)

lemma u_send_ready_again:
  "buffer s = (f, a) # rest \<Longrightarrow> tr (length (sent s)) a = Raise (ZMQError EAGAIN) \<Longrightarrow>
   u_send_ready tr s = (Return (), s\<lparr>sent := sent s @ [(f, a)]\<rparr>)"
  by (subst u_send_ready.simps) (simp add: super_send_def)

lemma u_send_ready_err:
  "buffer s = (f, a) # rest \<Longrightarrow> tr (length (sent s)) a = Raise e \<Longrightarrow> e \<noteq> ZMQError EAGAIN \<Longrightarrow>
   futs s f = Some Pending \<Longrightarrow>
   u_send_ready tr s =
     (Return (), s\<lparr>buffer := rest, sent := sent s @ [(f, a)], futs := (futs s)(f \<mapsto> Exception e)\<rparr>)"
  by (subst u_send_ready.simps) (cases e; simp add: super_send_def set_exception_def)

lemma u_send_ready_err_done:
  "buffer s = (f, a) # rest \<Longrightarrow> tr (length (sent s)) a = Raise e \<Longrightarrow> e \<noteq> ZMQError EAGAIN \<Longrightarrow>
   futs s f \<noteq> Some Pending \<Longrightarrow>
   u_send_ready tr s = (Raise InvalidStateError, s\<lparr>buffer := rest, sent := sent s @ [(f, a)]\<rparr>)"
  by (subst u_send_ready.simps) (cases e; simp add: super_send_def set_exception_def)


lemma u_send_ready_futs_frame:
  "futs s g \<noteq> Some Pending \<Longrightarrow> futs (snd (u_send_ready tr s)) g = futs s g"
proof (induction "length (buffer s)" arbitrary: s)
  case 0
  then show ?case by (simp add: u_send_ready_Nil)
next
  case (Suc n)
  then obtain f a rest where buf: "buffer s = (f, a) # rest"
    by (cases "buffer s") auto
  show ?case
  proof (cases "tr (length (sent s)) a")
    case (Return r)
    show ?thesis
    proof (cases "futs s f = Some Pending")
      case True
      let ?s1 = "s\<lparr>buffer := rest, sent := sent s @ [(f, a)],
                    futs := (futs s)(f \<mapsto> Result (SendRes r))\<rparr>"
      from True Suc.prems have neq: "g \<noteq> f" by auto
      have "futs (snd (u_send_ready tr ?s1)) g = futs ?s1 g"
        using Suc.hyps(2) Suc.prems buf neq by (intro Suc.hyps(1)) auto
      then show ?thesis
        using neq by (simp add: u_send_ready_ok [where tr = tr, OF buf Return True])
    next
      case False
      then show ?thesis by (simp add: u_send_ready_ok_done [where tr = tr, OF buf Return])
    qed
  next
    case (Raise e)
    show ?thesis
    proof (cases "e = ZMQError EAGAIN")
      case True
      with Raise show ?thesis by (simp add: u_send_ready_again [where tr = tr, OF buf])
    next
      case False
      show ?thesis
      proof (cases "futs s f = Some Pending")
        case True
        with Suc.prems have "g \<noteq> f" by auto
        then show ?thesis by (simp add: u_send_ready_err [where tr = tr, OF buf Raise False True])
      next
        case nonpending: False
        then show ?thesis by (simp add: u_send_ready_err_done [where tr = tr, OF buf Raise False])
      qed
    qed
  qed
qed

lemma drain_stop:
  assumes buf: "buffer s = rest"
    and stop: "rest = [] \<or> (\<exists>e. tr (length (sent s)) (snd (hd rest)) = Raise e)"
  shows "sent (snd (u_send_ready tr s)) = sent s @ take 1 rest
     \<and> futs (snd (u_send_ready tr s)) g = (if rest \<noteq> [] \<and> g = fst (hd rest) \<and> futs s g = Some Pending
            \<and> tr (length (sent s)) (snd (hd rest)) \<noteq> Raise (ZMQError EAGAIN)
          then Some (Exception (case tr (length (sent s)) (snd (hd rest)) of Raise e \<Rightarrow> e)) else futs s g)
     \<and> (rest = [] \<longrightarrow> buffer (snd (u_send_ready tr s)) = [] \<and> \<not> writer (snd (u_send_ready tr s)))
     \<and> (rest \<noteq> [] \<longrightarrow> writer (snd (u_send_ready tr s)) = writer s
           \<and> buffer (snd (u_send_ready tr s)) =
               (if tr (length (sent s)) (snd (hd rest)) = Raise (ZMQError EAGAIN)
                then rest else tl rest))"
proof (cases rest)
  case Nil
  with buf show ?thesis by (simp add: u_send_ready_Nil)
next
  case (Cons x rest')
  obtain f a where x: "x = (f, a)" by (cases x)
  from buf Cons x have b: "buffer s = (f, a) # rest'" by simp
  from stop Cons x obtain e where e: "tr (length (sent s)) a = Raise e" by auto
  show ?thesis
  proof (cases "e = ZMQError EAGAIN")
    case True
    with e Cons x b show ?thesis by (simp add: u_send_ready_again [where tr = tr, OF b])
  next
    case False
    show ?thesis
    proof (cases "futs s f = Some Pending")
      case True
      with e False Cons x show ?thesis by (simp add: u_send_ready_err [where tr = tr, OF b e False True])
    next
      case np: False
      with e False Cons x show ?thesis by (auto simp: u_send_ready_err_done [where tr = tr, OF b e False])
    qed
  qed
qed

subsection \<open>The order invariant holds in every run\<close>

lemma fifo_inv_init: "fifo_inv init_sock"
  by (simp add: fifo_inv_def init_sock_def)

lemma fifo_inv_send: "fifo_inv s \<Longrightarrow> fifo_inv (snd (send tr s d fl c t))"
  by (cases d)
     (auto simp: fifo_inv_def send_def new_future_def super_send_def set_result_def
        set_exception_def Let_def sorted_append sorted_wrt_append less_Suc_eq
        split: pyresult.splits exc.splits if_splits prod.splits sum.splits)

lemma fifo_inv_u_send_ready: "fifo_inv s \<Longrightarrow> fifo_inv (snd (u_send_ready tr s))"
proof (induction "length (buffer s)" arbitrary: s)
  case 0
  then show ?case by (simp add: u_send_ready_Nil fifo_inv_def)
next
  case (Suc n)
  then obtain f a rest where buf: "buffer s = (f, a) # rest"
    by (cases "buffer s") auto
  have popped: "fifo_inv (s\<lparr>buffer := rest, sent := sent s @ [(f, a)], futs := m\<rparr>)" for m
    using Suc.prems buf by (auto simp: fifo_inv_def sorted_append)
  have popped': "fifo_inv (s\<lparr>buffer := rest, sent := sent s @ [(f, a)]\<rparr>)"
    using Suc.prems buf by (auto simp: fifo_inv_def sorted_append)
  have again: "fifo_inv (s\<lparr>sent := sent s @ [(f, a)]\<rparr>)"
    using Suc.prems buf by (auto simp: fifo_inv_def sorted_append)
  show ?case
  proof (cases "tr (length (sent s)) a")
    case (Return r)
    show ?thesis
    proof (cases "futs s f = Some Pending")
      case True
      let ?s1 = "s\<lparr>buffer := rest, sent := sent s @ [(f, a)],
                    futs := (futs s)(f \<mapsto> Result (SendRes r))\<rparr>"
      have "fifo_inv (snd (u_send_ready tr ?s1))"
        using Suc.hyps(2) buf popped by (intro Suc.hyps(1)) auto
      then show ?thesis
        by (simp add: u_send_ready_ok [where tr = tr, OF buf Return True])
    next
      case False
      then show ?thesis
        using popped' by (simp add: u_send_ready_ok_done [where tr = tr, OF buf Return])
    qed
  next
    case (Raise e)
    show ?thesis
    proof (cases "e = ZMQError EAGAIN")
      case True
      with Raise again show ?thesis by (simp add: u_send_ready_again [where tr = tr, OF buf])
    next
      case False
      show ?thesis
      proof (cases "futs s f = Some Pending")
        case True
        then show ?thesis
          using popped by (simp add: u_send_ready_err [where tr = tr, OF buf Raise False True])
      next
        case nonpending: False
        then show ?thesis
          using popped' by (simp add: u_send_ready_err_done [where tr = tr, OF buf Raise False])
      qed
    qed
  qed
qed

lemma u_recv_frame:
  "buffer (snd (u_recv rtr s f reg args)) = buffer s
   \<and> sent (snd (u_recv rtr s f reg args)) = sent s
   \<and> writer (snd (u_recv rtr s f reg args)) = writer s
   \<and> next_fut (snd (u_recv rtr s f reg args)) = next_fut s"
  by (auto simp: u_recv_def super_recv_def set_result_def set_exception_def Let_def
      split: pyresult.splits exc.splits if_splits prod.splits sum.splits)

lemma recv_frame:
  "buffer (snd (recv rtr s fl c t)) = buffer s
   \<and> sent (snd (recv rtr s fl c t)) = sent s
   \<and> writer (snd (recv rtr s fl c t)) = writer s
   \<and> next_fut s \<le> next_fut (snd (recv rtr s fl c t))"
  using u_recv_frame [of rtr "snd (new_future (snd (super_recv rtr s (fl OR NOBLOCK, c, t))))"
      "next_fut s" False "(fl OR NOBLOCK, c, t)"]
  by (auto simp: recv_def super_recv_def new_future_def Let_def
      split: pyresult.splits exc.splits if_splits prod.splits)

lemma fifo_inv_frame:
  "fifo_inv s \<Longrightarrow> buffer s' = buffer s \<Longrightarrow> sent s' = sent s \<Longrightarrow> next_fut s \<le> next_fut s' \<Longrightarrow> fifo_inv s'"
  by (fastforce simp: fifo_inv_def)

lemma fifo_inv_step: "fifo_inv s \<Longrightarrow> fifo_inv (step tr rtr s ev)"
proof (cases ev)
  case (Send d fl c t)
  assume "fifo_inv s"
  then show ?thesis using Send by (simp add: fifo_inv_send)
next
  case (Recv fl c t)
  assume "fifo_inv s"
  then show ?thesis using Recv recv_frame [of rtr s fl c t] by (auto intro: fifo_inv_frame)
next
  case Writable
  assume "fifo_inv s"
  then show ?thesis using Writable by (simp add: writable_def fifo_inv_u_send_ready)
next
  case Readable
  assume "fifo_inv s"
  then show ?thesis
    using Readable u_recv_frame [of rtr s _ True]
    by (auto simp: readable_def intro: fifo_inv_frame split: option.splits)
next
  case (Cancel f)
  assume "fifo_inv s"
  then show ?thesis using Cancel by (auto simp: cancel_def intro: fifo_inv_frame)
next
  case Close
  assume "fifo_inv s"
  then show ?thesis using Close by (auto simp: close_def intro: fifo_inv_frame)
qed

lemma fifo_inv_foldl: "fifo_inv s \<Longrightarrow> fifo_inv (foldl (step tr rtr) s evs)"
  by (induction evs arbitrary: s) (simp_all add: fifo_inv_step)

lemma fifo_inv_run: "fifo_inv (run tr rtr evs)"
  by (simp add: run_def fifo_inv_foldl fifo_inv_init)

subsection \<open>Firings of the read callback\<close>

lemma readable_unarmed: "reader s = None \<Longrightarrow> readable rtr s = (Return (), s)"
  by (simp add: readable_def)

lemma readable_times_unarmed: "reader s = None \<Longrightarrow> readable_times rtr n s = s"
  by (induction n) (simp_all add: readable_unarmed)

lemma readable_cancelled:
  "reader s = Some (fut, args) \<Longrightarrow> futs s fut = Some Cancelled \<Longrightarrow>
   readable rtr s = (Return (), s\<lparr>reader := None\<rparr>)"
  by (simp add: readable_def u_recv_def cancelled_def)

lemma readable_retries:
  assumes "reader t = Some (f, args)" and "futs t f = Some Pending"
    and "\<forall>i<j. rtr (length (rcvd t) + i) args = Raise (ZMQError EAGAIN)"
    and "rtr (length (rcvd t) + j) args = Return d"
  shows "futs (readable_times rtr (Suc j) t) f = Some (Result (RecvData d))
     \<and> reader (readable_times rtr (Suc j) t) = None
     \<and> rcvd (readable_times rtr (Suc j) t) = rcvd t @ replicate (Suc j) args
     \<and> reader_adds (readable_times rtr (Suc j) t) = reader_adds t + j"
  using assms
proof (induction j arbitrary: t)
  case 0
  then show ?case
    by (simp add: readable_def u_recv_def cancelled_def super_recv_def set_result_def)
next
  case (Suc j)
  let ?t1 = "t\<lparr>rcvd := rcvd t @ [args], reader_adds := Suc (reader_adds t)\<rparr>"
  have first: "rtr (length (rcvd t)) args = Raise (ZMQError EAGAIN)"
    using Suc.prems(3) by (metis add.right_neutral zero_less_Suc)
  have step: "snd (readable rtr t) = ?t1"
    using Suc.prems(1,2) first
    by (simp add: readable_def u_recv_def cancelled_def super_recv_def)
  have blk: "\<forall>i<j. rtr (length (rcvd ?t1) + i) args = Raise (ZMQError EAGAIN)"
  proof (intro allI impI)
    fix i assume "i < j"
    then have "rtr (length (rcvd t) + Suc i) args = Raise (ZMQError EAGAIN)"
      using Suc.prems(3) by (meson Suc_less_eq)
    then show "rtr (length (rcvd ?t1) + i) args = Raise (ZMQError EAGAIN)" by simp
  qed
  have ok: "rtr (length (rcvd ?t1) + j) args = Return d"
    using Suc.prems(4) by simp
  have "futs (readable_times rtr (Suc j) ?t1) f = Some (Result (RecvData d))
     \<and> reader (readable_times rtr (Suc j) ?t1) = None
     \<and> rcvd (readable_times rtr (Suc j) ?t1) = rcvd ?t1 @ replicate (Suc j) args
     \<and> reader_adds (readable_times rtr (Suc j) ?t1) = reader_adds ?t1 + j"
    using Suc.prems(1,2) by (intro Suc.IH [OF _ _ blk ok]) simp_all
  then show ?case
    using step by (simp add: replicate_append_same)
qed

subsection \<open>The write callback and the calls of send\<close>

lemma noblock_forced: "(flags OR NOBLOCK) AND NOBLOCK \<noteq> 0"
  by (simp add: NOBLOCK_def and_one_eq or_one_eq) presburger

lemma noblock_kept: "flags AND NOBLOCK \<noteq> 0 \<Longrightarrow> flags OR NOBLOCK = flags"
  by (simp add: NOBLOCK_def and_one_eq or_one_eq) presburger

lemma send_keeps_unarmed:
  "writer (snd (send tr s d fl c t)) \<Longrightarrow> buffer (snd (send tr s d fl c t)) = [] \<Longrightarrow>
   writer s \<and> buffer s = []"
  by (cases d)
     (auto simp: send_def new_future_def super_send_def set_result_def set_exception_def Let_def
        split: pyresult.splits exc.splits if_splits prod.splits sum.splits)

lemma successful_drain_unarms:
  "fst (u_send_ready tr s) = Return () \<Longrightarrow>
   \<forall>i. length (sent s) \<le> i \<and> i < length (sent (snd (u_send_ready tr s)))
       \<longrightarrow> (\<exists>r. tr i (snd (sent (snd (u_send_ready tr s)) ! i)) = Return r) \<Longrightarrow>
   buffer (snd (u_send_ready tr s)) = [] \<and> \<not> writer (snd (u_send_ready tr s))"
proof (induction "length (buffer s)" arbitrary: s)
  case 0
  then show ?case by (simp add: u_send_ready_Nil)
next
  case (Suc n)
  then obtain f a rest where buf: "buffer s = (f, a) # rest"
    by (cases "buffer s") auto
  show ?case
  proof (cases "tr (length (sent s)) a")
    case (Return r)
    show ?thesis
    proof (cases "futs s f = Some Pending")
      case True
      let ?s1 = "s\<lparr>buffer := rest, sent := sent s @ [(f, a)],
                    futs := (futs s)(f \<mapsto> Result (SendRes r))\<rparr>"
      have eq: "u_send_ready tr s = u_send_ready tr ?s1"
        by (rule u_send_ready_ok [where tr = tr, OF buf Return True])
      have "buffer (snd (u_send_ready tr ?s1)) = [] \<and> \<not> writer (snd (u_send_ready tr ?s1))"
      proof (rule Suc.hyps(1))
        show "n = length (buffer ?s1)" using Suc.hyps(2) buf by simp
        show "fst (u_send_ready tr ?s1) = Return ()" using Suc.prems(1) eq by simp
        show "\<forall>i. length (sent ?s1) \<le> i \<and> i < length (sent (snd (u_send_ready tr ?s1)))
            \<longrightarrow> (\<exists>r. tr i (snd (sent (snd (u_send_ready tr ?s1)) ! i)) = Return r)"
          using Suc.prems(2) eq by simp
      qed
      then show ?thesis by (simp add: eq)
    next
      case False
      then show ?thesis
        using Suc.prems(1) by (simp add: u_send_ready_ok_done [where tr = tr, OF buf Return])
    qed
  next
    case (Raise e)
    have last: "\<exists>r. tr (length (sent s)) a = Return r"
      if "sent (snd (u_send_ready tr s)) = sent s @ [(f, a)]"
      using Suc.prems(2) [rule_format, of "length (sent s)"] that by simp
    have sent': "sent (snd (u_send_ready tr s)) = sent s @ [(f, a)]"
    proof (cases "e = ZMQError EAGAIN")
      case True
      with Raise show ?thesis by (simp add: u_send_ready_again [where tr = tr, OF buf])
    next
      case False
      show ?thesis
      proof (cases "futs s f = Some Pending")
        case True
        then show ?thesis by (simp add: u_send_ready_err [where tr = tr, OF buf Raise False True])
      next
        case nonpending: False
        then show ?thesis by (simp add: u_send_ready_err_done [where tr = tr, OF buf Raise False])
      qed
    qed
    from last [OF sent'] Raise show ?thesis by simp
  qed
qed

subsection \<open>The write registration in every run\<close>

lemma active_writers_add [simp]: "active_writers (add_writer s) = 1"
  by (simp add: active_writers_def add_writer_def filter_map o_def)

lemma active_writers_remove [simp]: "active_writers (remove_writer s) = 0"
  by (simp add: active_writers_def remove_writer_def filter_map o_def)

lemma one_writer_same:
  "one_writer s \<Longrightarrow> writer s' = writer s \<Longrightarrow> writer_handles s' = writer_handles s \<Longrightarrow>
   one_writer s'"
  by (simp add: one_writer_def active_writers_def)

lemma one_writer_init: "one_writer init_sock"
  by (simp add: one_writer_def active_writers_def init_sock_def)

lemma send_writer_handles:
  "writer_handles (snd (send tr s (PyBytes b) fl c t)) =
     (if b \<noteq> [] \<and> buffer s = [] \<and> fl AND NOBLOCK = 0
         \<and> tr (length (sent s)) (b, fl OR NOBLOCK, c, t) = Raise (ZMQError EAGAIN)
      then map (\<lambda>h. False) (writer_handles s) @ [True] else writer_handles s)"
  by (auto simp: send_def new_future_def super_send_def set_result_def set_exception_def Let_def
        add_writer_def
      split: pyresult.splits exc.splits if_splits prod.splits sum.splits)

lemma send_registration:
  "(writer (snd (send tr s d fl c t)) = writer s
      \<and> writer_handles (snd (send tr s d fl c t)) = writer_handles s)
   \<or> (writer (snd (send tr s d fl c t))
      \<and> writer_handles (snd (send tr s d fl c t)) = map (\<lambda>h. False) (writer_handles s) @ [True])"
  by (cases d)
     (auto simp: send_def new_future_def super_send_def set_result_def set_exception_def Let_def
        add_writer_def
      split: pyresult.splits exc.splits if_splits prod.splits sum.splits)

lemma one_writer_send: "one_writer s \<Longrightarrow> one_writer (snd (send tr s d fl c t))"
  using send_registration [of tr s d fl c t]
  by (auto simp: one_writer_def active_writers_def filter_map o_def)

lemma u_send_ready_registration:
  "(writer (snd (u_send_ready tr s)) = writer s
      \<and> writer_handles (snd (u_send_ready tr s)) = writer_handles s)
   \<or> (\<not> writer (snd (u_send_ready tr s))
      \<and> writer_handles (snd (u_send_ready tr s)) = map (\<lambda>h. False) (writer_handles s))"
proof (induction "length (buffer s)" arbitrary: s)
  case 0
  then show ?case by (simp add: u_send_ready_Nil remove_writer_def)
next
  case (Suc n)
  then obtain f a rest where buf: "buffer s = (f, a) # rest"
    by (cases "buffer s") auto
  show ?case
  proof (cases "tr (length (sent s)) a")
    case (Return r)
    show ?thesis
    proof (cases "futs s f = Some Pending")
      case True
      let ?s1 = "s\<lparr>buffer := rest, sent := sent s @ [(f, a)],
                    futs := (futs s)(f \<mapsto> Result (SendRes r))\<rparr>"
      have "(writer (snd (u_send_ready tr ?s1)) = writer ?s1
            \<and> writer_handles (snd (u_send_ready tr ?s1)) = writer_handles ?s1)
         \<or> (\<not> writer (snd (u_send_ready tr ?s1))
            \<and> writer_handles (snd (u_send_ready tr ?s1)) = map (\<lambda>h. False) (writer_handles ?s1))"
        using Suc.hyps(2) buf by (intro Suc.hyps(1)) auto
      then show ?thesis
        by (simp add: u_send_ready_ok [where tr = tr, OF buf Return True])
    next
      case False
      then show ?thesis by (simp add: u_send_ready_ok_done [where tr = tr, OF buf Return])
    qed
  next
    case (Raise e)
    show ?thesis
    proof (cases "e = ZMQError EAGAIN")
      case True
      with Raise show ?thesis by (simp add: u_send_ready_again [where tr = tr, OF buf])
    next
      case False
      show ?thesis
      proof (cases "futs s f = Some Pending")
        case True
        then show ?thesis by (simp add: u_send_ready_err [where tr = tr, OF buf Raise False True])
      next
        case nonpending: False
        then show ?thesis by (simp add: u_send_ready_err_done [where tr = tr, OF buf Raise False])
      qed
    qed
  qed
qed

lemma one_writer_u_send_ready: "one_writer s \<Longrightarrow> one_writer (snd (u_send_ready tr s))"
  using u_send_ready_registration [of tr s]
  by (auto simp: one_writer_def active_writers_def filter_map o_def)

lemma u_recv_writer_handles:
  "writer_handles (snd (u_recv rtr s f reg args)) = writer_handles s"
  by (auto simp: u_recv_def super_recv_def set_result_def set_exception_def Let_def
      split: pyresult.splits exc.splits if_splits prod.splits sum.splits)

lemma recv_writer_handles:
  "writer_handles (snd (recv rtr s fl c t)) = writer_handles s"
  using u_recv_writer_handles [of rtr "snd (new_future (snd (super_recv rtr s (fl OR NOBLOCK, c, t))))"
      "next_fut s" False "(fl OR NOBLOCK, c, t)"]
  by (auto simp: recv_def super_recv_def new_future_def Let_def
      split: pyresult.splits exc.splits if_splits prod.splits)

lemma one_writer_step: "one_writer s \<Longrightarrow> one_writer (step tr rtr s ev)"
proof (cases ev)
  case (Send d fl c t)
  assume "one_writer s"
  then show ?thesis using Send by (simp add: one_writer_send)
next
  case (Recv fl c t)
  assume "one_writer s"
  then show ?thesis
    using Recv recv_frame [of rtr s fl c t] recv_writer_handles [of rtr s fl c t]
    by (auto intro: one_writer_same)
next
  case Writable
  assume "one_writer s"
  then show ?thesis using Writable by (simp add: writable_def one_writer_u_send_ready)
next
  case Readable
  assume "one_writer s"
  then show ?thesis
    using Readable u_recv_frame [of rtr s _ True] u_recv_writer_handles [of rtr s _ True]
    by (auto simp: readable_def intro: one_writer_same split: option.splits)
next
  case (Cancel f)
  assume "one_writer s"
  then show ?thesis using Cancel by (auto simp: cancel_def intro: one_writer_same)
next
  case Close
  assume "one_writer s"
  then show ?thesis using Close by (auto simp: close_def intro: one_writer_same)
qed

lemma one_writer_foldl: "one_writer s \<Longrightarrow> one_writer (foldl (step tr rtr) s evs)"
  by (induction evs arbitrary: s) (simp_all add: one_writer_step)

lemma one_writer_run: "one_writer (run tr rtr evs)"
  by (simp add: run_def one_writer_foldl one_writer_init)

subsection \<open>Evaluating concrete runs\<close>

lemmas eval_defs = run_def send_def new_future_def super_send_def set_result_def set_exception_def
  NOBLOCK_def EAGAIN_def init_sock_def scripted_def Let_def writable_def readable_def recv_def
  u_recv_def super_recv_def cancel_def close_def cancelled_def yield_from_def add_writer_def
  remove_writer_def

text \<open>
  Where the first attempt of \<open>send\<close> fails with an error other than would-block, the
  method sets the error on the future and leaves by a bare \<open>return\<close>: the caller gets
  \<open>None\<close>, and no reference to the future that holds the error.
\<close>

lemma send_error_returns_none:
  "fst (send (scripted [Raise (ZMQError 22)]) init_sock (PyBytes ''a'') 0 True False) = Return None
   \<and> futs (snd (send (scripted [Raise (ZMQError 22)]) init_sock (PyBytes ''a'') 0 True False)) 0
     = Some (Exception (ZMQError 22))"
  by (simp add: eval_defs)

subsection \<open>The drain while every future is pending\<close>

text \<open>
  When the entries \<open>pre\<close> at the head of the queue have pending futures and their sends
  succeed, and the queue ends after them or the send of the next entry raises, then in one
  firing every future of \<open>pre\<close> is fulfilled with its send's result, the transport has seen
  exactly the sends of \<open>pre\<close> and of the next entry, in this order, and
  \<^item> an exhausted queue is left empty with the write callback removed;
  \<^item> otherwise the write callback stays as it was, and the queue is the rest, headed by the
    entry that would block, or the rest without the entry whose send failed.
  The example after it: three entries are queued, the transport takes two sends and then
  would block.
\<close>

lemma send_ready_drains:
  assumes buf: "buffer s = pre @ rest"
    and dist: "distinct (map fst pre)"
    and pend: "\<forall>e\<in>set pre. futs s (fst e) = Some Pending"
    and len: "length rs = length pre"
    and ok: "\<forall>i<length pre. tr (length (sent s) + i) (snd (pre ! i)) = Return (rs ! i)"
    and stop: "rest = [] \<or> (\<exists>e. tr (length (sent s) + length pre) (snd (hd rest)) = Raise e)"
  shows "(\<forall>i<length pre. futs (snd (u_send_ready tr s)) (fst (pre ! i)) = Some (Result (SendRes (rs ! i))))
     \<and> sent (snd (u_send_ready tr s)) = sent s @ pre @ take 1 rest
     \<and> (rest = [] \<longrightarrow> buffer (snd (u_send_ready tr s)) = [] \<and> \<not> writer (snd (u_send_ready tr s)))
     \<and> (rest \<noteq> [] \<longrightarrow> writer (snd (u_send_ready tr s)) = writer s
           \<and> buffer (snd (u_send_ready tr s)) =
               (if tr (length (sent s) + length pre) (snd (hd rest)) = Raise (ZMQError EAGAIN)
                then rest else tl rest))"
  using assms
proof (induction pre arbitrary: s rs)
  case Nil
  then show ?case using drain_stop [of s rest tr] by simp
next
  case (Cons x pre)
  obtain f a where x: "x = (f, a)" by (cases x)
  from Cons.prems(4) obtain r rs' where rs: "rs = r # rs'" and len': "length rs' = length pre"
    by (cases rs) auto
  let ?s1 = "s\<lparr>buffer := pre @ rest, sent := sent s @ [(f, a)],
                futs := (futs s)(f \<mapsto> Result (SendRes r))\<rparr>"
  have b: "buffer s = (f, a) # pre @ rest" using Cons.prems(1) x by simp
  have r0: "tr (length (sent s)) a = Return r" using Cons.prems(5) x rs by auto
  have p0: "futs s f = Some Pending" using Cons.prems(3) x by simp
  have step: "u_send_ready tr s = u_send_ready tr ?s1"
    by (rule u_send_ready_ok [where tr = tr, OF b r0 p0])
  have fresh: "f \<notin> fst ` set pre" using Cons.prems(2) x by simp
  have pend1: "\<forall>e\<in>set pre. futs ?s1 (fst e) = Some Pending"
    using Cons.prems(3) fresh by auto
  have ok1: "\<forall>i<length pre. tr (length (sent ?s1) + i) (snd (pre ! i)) = Return (rs' ! i)"
  proof (intro allI impI)
    fix i assume "i < length pre"
    then have "tr (length (sent s) + Suc i) (snd ((x # pre) ! Suc i)) = Return (rs ! Suc i)"
      using Cons.prems(5) by auto
    then show "tr (length (sent ?s1) + i) (snd (pre ! i)) = Return (rs' ! i)"
      using rs by simp
  qed
  have stop1: "rest = [] \<or> (\<exists>e. tr (length (sent ?s1) + length pre) (snd (hd rest)) = Raise e)"
    using Cons.prems(6) by simp
  have dist1: "distinct (map fst pre)" using Cons.prems(2) by simp
  have IH: "(\<forall>i<length pre. futs (snd (u_send_ready tr ?s1)) (fst (pre ! i)) = Some (Result (SendRes (rs' ! i))))
     \<and> sent (snd (u_send_ready tr ?s1)) = sent ?s1 @ pre @ take 1 rest
     \<and> (rest = [] \<longrightarrow> buffer (snd (u_send_ready tr ?s1)) = [] \<and> \<not> writer (snd (u_send_ready tr ?s1)))
     \<and> (rest \<noteq> [] \<longrightarrow> writer (snd (u_send_ready tr ?s1)) = writer ?s1
           \<and> buffer (snd (u_send_ready tr ?s1)) =
               (if tr (length (sent ?s1) + length pre) (snd (hd rest)) = Raise (ZMQError EAGAIN)
                then rest else tl rest))"
    by (rule Cons.IH [OF _ dist1 pend1 len' ok1 stop1]) simp
  have head: "futs (snd (u_send_ready tr ?s1)) f = Some (Result (SendRes r))"
    using u_send_ready_futs_frame [of ?s1 f tr] by simp
  have futs_all: "\<forall>i<length (x # pre). futs (snd (u_send_ready tr s)) (fst ((x # pre) ! i))
      = Some (Result (SendRes (rs ! i)))"
  proof (intro allI impI)
    fix i assume i: "i < length (x # pre)"
    show "futs (snd (u_send_ready tr s)) (fst ((x # pre) ! i)) = Some (Result (SendRes (rs ! i)))"
    proof (cases i)
      case 0
      then show ?thesis using head step x rs by simp
    next
      case (Suc j)
      then show ?thesis using IH i step rs by simp
    qed
  qed
  show ?case
    using futs_all IH step x by simp
qed

lemma send_ready_drains_example:
  "buffer (run (scripted [Raise (ZMQError EAGAIN), Return 7, Return 8]) (scripted []) three_sends)
     = [(0, ''a'', 1, True, False), (1, ''b'', 1, True, False)] @ [(2, ''c'', 1, True, False)]
   \<and> writer (run (scripted [Raise (ZMQError EAGAIN), Return 7, Return 8]) (scripted []) three_sends)
   \<and> futs (snd (u_send_ready (scripted [Raise (ZMQError EAGAIN), Return 7, Return 8])
        (run (scripted [Raise (ZMQError EAGAIN), Return 7, Return 8]) (scripted []) three_sends))) 0
     = Some (Result (SendRes 7))
   \<and> futs (snd (u_send_ready (scripted [Raise (ZMQError EAGAIN), Return 7, Return 8])
        (run (scripted [Raise (ZMQError EAGAIN), Return 7, Return 8]) (scripted []) three_sends))) 1
     = Some (Result (SendRes 8))
   \<and> buffer (snd (u_send_ready (scripted [Raise (ZMQError EAGAIN), Return 7, Return 8])
        (run (scripted [Raise (ZMQError EAGAIN), Return 7, Return 8]) (scripted []) three_sends)))
     = [(2, ''c'', 1, True, False)]
   \<and> writer (snd (u_send_ready (scripted [Raise (ZMQError EAGAIN), Return 7, Return 8])
        (run (scripted [Raise (ZMQError EAGAIN), Return 7, Return 8]) (scripted []) three_sends)))
   \<and> sent (snd (u_send_ready (scripted [Raise (ZMQError EAGAIN), Return 7, Return 8])
        (run (scripted [Raise (ZMQError EAGAIN), Return 7, Return 8]) (scripted []) three_sends)))
     = [(0, ''a'', 1, True, False), (0, ''a'', 1, True, False), (1, ''b'', 1, True, False),
        (2, ''c'', 1, True, False)]"
proof -
  let ?T = "scripted [Raise (ZMQError EAGAIN), Return 7, Return 8] :: send_transport"
  let ?S = "run ?T (scripted []) three_sends"
  let ?pre = "[(0, ''a'', 1, True, False), (1, ''b'', 1, True, False)] :: entry list"
  let ?rest = "[(2, ''c'', 1, True, False)] :: entry list"
  have S: "?S = \<lparr> buffer = ?pre @ ?rest,
       futs = [0 \<mapsto> Pending, 1 \<mapsto> Pending, 2 \<mapsto> Pending], next_fut = 3, writer = True,
       reader = None, sent = [(0, ''a'', 1, True, False)], rcvd = [], reader_adds = 0,
       closed = False, writer_handles = [True] \<rparr>"
    by (simp add: three_sends_def eval_defs numeral_2_eq_2 numeral_3_eq_3)
  have ok: "\<forall>i<length ?pre. ?T (length (sent ?S) + i) (snd (?pre ! i)) = Return ([7, 8] ! i)"
    by (simp add: S scripted_def less_Suc_eq)
  from send_ready_drains [of ?S ?pre ?rest "[7, 8]" ?T, OF _ _ _ _ ok]
  have "(\<forall>i<length ?pre. futs (snd (u_send_ready ?T ?S)) (fst (?pre ! i))
            = Some (Result (SendRes ([7, 8] ! i))))
     \<and> sent (snd (u_send_ready ?T ?S)) = sent ?S @ ?pre @ take 1 ?rest
     \<and> writer (snd (u_send_ready ?T ?S)) = writer ?S
     \<and> buffer (snd (u_send_ready ?T ?S)) = ?rest"
    by (simp add: S scripted_def)
  then show ?thesis
    by (simp add: S less_Suc_eq)
qed

subsection \<open>The claims\<close>

text \<open>
  C1. The queue is served first in, first out. In every state an adapter can reach, by any
  sequence of sends, receives, cancellations, closings and readiness firings, over any
  transport: the sends the transport has seen are in the order of the \<open>send\<close> calls they
  come from (a retry repeats the same call's entry), the queue is in the order of the calls,
  and no send the transport has seen comes from a call later than an entry still queued.
  When the send of the head entry would block during a drain, the drain returns with the
  queue as it was, the entry back at its head.
\<close>

theorem fifo_order:
  "sorted (map fst (sent (run tr rtr evs)))
   \<and> sorted_wrt (<) (map fst (buffer (run tr rtr evs)))
   \<and> (\<forall>a\<in>set (sent (run tr rtr evs)). \<forall>e\<in>set (buffer (run tr rtr evs)). fst a \<le> fst e)
   \<and> (\<forall>e rest. buffer (run tr rtr evs) = e # rest
          \<and> tr (length (sent (run tr rtr evs))) (snd e) = Raise (ZMQError EAGAIN)
        \<longrightarrow> u_send_ready tr (run tr rtr evs)
            = (Return (), (run tr rtr evs)\<lparr>sent := sent (run tr rtr evs) @ [e]\<rparr>))"
proof -
  have inv: "fifo_inv (run tr rtr evs)" by (rule fifo_inv_run)
  have head: "u_send_ready tr s = (Return (), s\<lparr>sent := sent s @ [e]\<rparr>)"
    if "buffer s = e # rest" and "tr (length (sent s)) (snd e) = Raise (ZMQError EAGAIN)"
    for s e rest
    using that u_send_ready_again [of s "fst e" "snd e" rest tr] by simp
  show ?thesis
    using inv head by (auto simp: fifo_inv_def)
qed

theorem fifo_order_witness:
  "sent (run (scripted [Raise (ZMQError EAGAIN), Return 7]) (scripted []) (three_sends @ [Writable]))
     = [(0, ''a'', 1, True, False), (0, ''a'', 1, True, False), (1, ''b'', 1, True, False)]
   \<and> buffer (run (scripted [Raise (ZMQError EAGAIN), Return 7]) (scripted []) (three_sends @ [Writable]))
     = [(1, ''b'', 1, True, False), (2, ''c'', 1, True, False)]
   \<and> (scripted [Raise (ZMQError EAGAIN), Return 7] :: send_transport) 3 (''b'', 1, True, False)
     = Raise (ZMQError EAGAIN)
   \<and> sorted (map fst (sent (run (scripted [Raise (ZMQError EAGAIN), Return 7]) (scripted [])
        (three_sends @ [Writable]))))
   \<and> buffer (snd (u_send_ready (scripted [Raise (ZMQError EAGAIN), Return 7])
        (run (scripted [Raise (ZMQError EAGAIN), Return 7]) (scripted []) (three_sends @ [Writable]))))
     = [(1, ''b'', 1, True, False), (2, ''c'', 1, True, False)]"
proof -
  let ?T = "scripted [Raise (ZMQError EAGAIN), Return 7] :: send_transport"
  let ?S = "run ?T (scripted []) (three_sends @ [Writable])"
  have S: "?S = \<lparr> buffer = [(1, ''b'', 1, True, False), (2, ''c'', 1, True, False)],
       futs = [0 \<mapsto> Result (SendRes 7), 1 \<mapsto> Pending, 2 \<mapsto> Pending], next_fut = 3, writer = True,
       reader = None,
       sent = [(0, ''a'', 1, True, False), (0, ''a'', 1, True, False), (1, ''b'', 1, True, False)],
       rcvd = [], reader_adds = 0, closed = False, writer_handles = [True] \<rparr>"
    by (simp add: three_sends_def eval_defs u_send_ready.simps numeral_2_eq_2 numeral_3_eq_3
        fun_upd_twist)
  have blocks: "?T (length (sent ?S)) (snd (1, ''b'', 1, True, False)) = Raise (ZMQError EAGAIN)"
    by (simp add: S scripted_def)
  have buf: "buffer ?S = (1, ''b'', 1, True, False) # [(2, ''c'', 1, True, False)]"
    by (simp add: S)
  note order = fifo_order [of ?T "scripted []" "three_sends @ [Writable]"]
  have sorted: "sorted (map fst (sent ?S))"
    using order by blast
  have again: "u_send_ready ?T ?S = (Return (), ?S\<lparr>sent := sent ?S @ [(1, ''b'', 1, True, False)]\<rparr>)"
    using order buf blocks by blast
  have after: "buffer (snd (u_send_ready ?T ?S)) = buffer ?S"
    by (simp add: again)
  have third: "?T 3 (''b'', 1, True, False) = Raise (ZMQError EAGAIN)"
    by (simp add: scripted_def)
  have sentS: "sent ?S
     = [(0, ''a'', 1, True, False), (0, ''a'', 1, True, False), (1, ''b'', 1, True, False)]"
    by (simp add: S)
  show ?thesis
    using sentS buf third sorted after by simp
qed

text \<open>
  C2 fails on the code: a firing does not drain every entry that can be sent. Three sends
  are queued and the caller cancels the second; the transport then accepts every send. The
  firing sends the first entry and fulfils it, sends the second, and ends in the
  \<open>InvalidStateError\<close> of settling the cancelled future: the third entry, whose future is
  pending and whose send would succeed, is left in the queue, untried.
\<close>

theorem cancelled_entry_stops_drain:
  "buffer (run (scripted [Raise (ZMQError EAGAIN), Return 7, Return 8, Return 9]) (scripted [])
        cancelled_sibling)
     = [(0, ''a'', 1, True, False), (1, ''b'', 1, True, False), (2, ''c'', 1, True, False)]
   \<and> futs (run (scripted [Raise (ZMQError EAGAIN), Return 7, Return 8, Return 9]) (scripted [])
        cancelled_sibling) 1 = Some Cancelled
   \<and> fst (writable (scripted [Raise (ZMQError EAGAIN), Return 7, Return 8, Return 9])
        (run (scripted [Raise (ZMQError EAGAIN), Return 7, Return 8, Return 9]) (scripted [])
          cancelled_sibling))
     = Raise InvalidStateError
   \<and> sent (snd (writable (scripted [Raise (ZMQError EAGAIN), Return 7, Return 8, Return 9])
        (run (scripted [Raise (ZMQError EAGAIN), Return 7, Return 8, Return 9]) (scripted [])
          cancelled_sibling)))
     = [(0, ''a'', 1, True, False), (0, ''a'', 1, True, False), (1, ''b'', 1, True, False)]
   \<and> futs (snd (writable (scripted [Raise (ZMQError EAGAIN), Return 7, Return 8, Return 9])
        (run (scripted [Raise (ZMQError EAGAIN), Return 7, Return 8, Return 9]) (scripted [])
          cancelled_sibling))) 0
     = Some (Result (SendRes 7))
   \<and> buffer (snd (writable (scripted [Raise (ZMQError EAGAIN), Return 7, Return 8, Return 9])
        (run (scripted [Raise (ZMQError EAGAIN), Return 7, Return 8, Return 9]) (scripted [])
          cancelled_sibling)))
     = [(2, ''c'', 1, True, False)]
   \<and> futs (snd (writable (scripted [Raise (ZMQError EAGAIN), Return 7, Return 8, Return 9])
        (run (scripted [Raise (ZMQError EAGAIN), Return 7, Return 8, Return 9]) (scripted [])
          cancelled_sibling))) 2
     = Some Pending
   \<and> (scripted [Raise (ZMQError EAGAIN), Return 7, Return 8, Return 9] :: send_transport)
        3 (''c'', 1, True, False)
     = Return 9"
  by (simp add: cancelled_sibling_def three_sends_def eval_defs u_send_ready.simps)

text \<open>
  C3 fails on the code as stated: closing settles nothing. The counterexample: a send is
  queued with the write callback armed, a receive waits with the read callback armed, and
  the socket is closed; both futures are still pending and both callbacks still registered.
\<close>

theorem close_settles_nothing:
  "buffer (run (scripted []) (scripted []) close_outstanding) = [(0, ''a'', 1, True, False)]
   \<and> futs (run (scripted []) (scripted []) close_outstanding) 0 = Some Pending
   \<and> futs (run (scripted []) (scripted []) close_outstanding) 1 = Some Pending
   \<and> writer (run (scripted []) (scripted []) close_outstanding)
   \<and> reader (run (scripted []) (scripted []) close_outstanding) = Some (1, 1, True, False)
   \<and> closed (run (scripted []) (scripted []) close_outstanding)"
  by (simp add: close_outstanding_def eval_defs)

text \<open>
  C3, as the code has it. Closing the adapter is the \<open>close\<close> inherited from the transport's
  socket class: it is idempotent, and it leaves the pending-write queue, every future and
  both readiness registrations as they were.
\<close>

theorem close_is_inherited:
  "close (close s) = close s
   \<and> buffer (close s) = buffer s \<and> futs (close s) = futs s
   \<and> writer (close s) = writer s \<and> reader (close s) = reader s
   \<and> sent (close s) = sent s \<and> rcvd (close s) = rcvd s"
  by (simp add: close_def)

text \<open>
  C4 fails on the code as stated: a receive that would block once is retried at once inside
  the call, succeeds there, and has made two transport calls and no registration at all.
\<close>

theorem one_would_block_no_registration:
  "fst (recv (scripted [Raise (ZMQError EAGAIN), Return ''m'']) init_sock 0 True False) = Returned ''m''
   \<and> rcvd (snd (recv (scripted [Raise (ZMQError EAGAIN), Return ''m'']) init_sock 0 True False))
     = [(1, True, False), (1, True, False)]
   \<and> reader_adds (snd (recv (scripted [Raise (ZMQError EAGAIN), Return ''m'']) init_sock 0 True False))
     = 0
   \<and> reader (snd (recv (scripted [Raise (ZMQError EAGAIN), Return ''m'']) init_sock 0 True False))
     = None"
  by (simp add: eval_defs)

text \<open>
  C4, as the code has it. A receive without \<open>NOBLOCK\<close> in the caller's flags whose transport
  would block \<open>k\<close> times and then delivers makes exactly \<open>k + 1\<close> transport calls, all with
  \<open>NOBLOCK\<close> forced on, and \<open>k - 1\<close> registrations of the read callback (none for \<open>k = 0\<close>
  and for \<open>k = 1\<close>): the first retry is made inside the call, before anything is registered,
  and each later one by a firing of the callback. For \<open>k \<le> 1\<close> the call returns the data
  itself and touches no registration; for \<open>k > 1\<close> it waits on its future, which the firing
  number \<open>k - 1\<close> fulfils with the data, leaving no callback registered.
\<close>

theorem recv_retries:
  assumes nb: "flags AND NOBLOCK = 0"
    and blk: "\<forall>i<k. rtr (length (rcvd s) + i) (flags OR NOBLOCK, copy, track) = Raise (ZMQError EAGAIN)"
    and ok: "rtr (length (rcvd s) + k) (flags OR NOBLOCK, copy, track) = Return d"
  shows "rcvd (readable_times rtr (k - 1) (snd (recv rtr s flags copy track)))
       = rcvd s @ replicate (k + 1) (flags OR NOBLOCK, copy, track)
     \<and> reader_adds (readable_times rtr (k - 1) (snd (recv rtr s flags copy track)))
       = reader_adds s + (k - 1)
     \<and> (k \<le> 1 \<longrightarrow> fst (recv rtr s flags copy track) = Returned d
           \<and> reader (snd (recv rtr s flags copy track)) = reader s)
     \<and> (1 < k \<longrightarrow> fst (recv rtr s flags copy track) = Awaiting (next_fut s)
           \<and> reader (readable_times rtr (k - 1) (snd (recv rtr s flags copy track))) = None)
     \<and> (0 < k \<longrightarrow> futs (readable_times rtr (k - 1) (snd (recv rtr s flags copy track))) (next_fut s)
           = Some (Result (RecvData d)))"
proof -
  let ?args = "(flags OR NOBLOCK, copy, track)"
  have b: "rtr (length (rcvd s) + i) ?args = Raise (ZMQError EAGAIN)" if "i < k" for i
    using blk that by blast
  consider "k = 0" | "k = 1" | j where "k = Suc (Suc j)"
    by (metis One_nat_def not0_implies_Suc)
  then show ?thesis
  proof cases
    case 1
    with ok nb show ?thesis
      by (simp add: recv_def super_recv_def Let_def)
  next
    case 2
    have a0: "rtr (length (rcvd s)) ?args = Raise (ZMQError EAGAIN)"
      using b [of 0] 2 by simp
    have a1: "rtr (Suc (length (rcvd s))) ?args = Return d"
      using ok 2 by simp
    show ?thesis
      using nb a0 a1 2
      by (simp add: recv_def super_recv_def new_future_def u_recv_def cancelled_def
          set_result_def yield_from_def Let_def)
  next
    case 3
    have a0: "rtr (length (rcvd s)) ?args = Raise (ZMQError EAGAIN)"
      using b [of 0] 3 by simp
    have a1: "rtr (Suc (length (rcvd s))) ?args = Raise (ZMQError EAGAIN)"
      using b [of 1] 3 by simp
    let ?t = "s\<lparr>futs := (futs s)(next_fut s \<mapsto> Pending), next_fut := Suc (next_fut s),
        reader := Some (next_fut s, ?args), rcvd := rcvd s @ [?args, ?args],
        reader_adds := Suc (reader_adds s)\<rparr>"
    have r: "recv rtr s flags copy track = (Awaiting (next_fut s), ?t)"
      using nb a0 a1
      by (simp add: recv_def super_recv_def new_future_def u_recv_def cancelled_def
          yield_from_def Let_def)
    have blk': "\<forall>i<j. rtr (length (rcvd ?t) + i) ?args = Raise (ZMQError EAGAIN)"
    proof (intro allI impI)
      fix i assume "i < j"
      then have "rtr (length (rcvd s) + (Suc (Suc i))) ?args = Raise (ZMQError EAGAIN)"
        using b [of "Suc (Suc i)"] 3 by simp
      then show "rtr (length (rcvd ?t) + i) ?args = Raise (ZMQError EAGAIN)" by simp
    qed
    have ok': "rtr (length (rcvd ?t) + j) ?args = Return d"
      using ok 3 by simp
    have "futs (readable_times rtr (Suc j) ?t) (next_fut s) = Some (Result (RecvData d))
       \<and> reader (readable_times rtr (Suc j) ?t) = None
       \<and> rcvd (readable_times rtr (Suc j) ?t) = rcvd ?t @ replicate (Suc j) ?args
       \<and> reader_adds (readable_times rtr (Suc j) ?t) = reader_adds ?t + j"
      by (intro readable_retries [where rtr = rtr and t = ?t and args = ?args, OF _ _ blk' ok'])
        simp_all
    then show ?thesis
      using 3 by (simp add: r)
  qed
qed

theorem recv_retries_witness:
  "(0::int) AND NOBLOCK = 0
   \<and> scripted [Raise (ZMQError EAGAIN), Raise (ZMQError EAGAIN), Raise (ZMQError EAGAIN), Return ''m'']
        (length (rcvd init_sock) + 3) (0 OR NOBLOCK, True, False) = Return ''m''
   \<and> rcvd (readable_times
        (scripted [Raise (ZMQError EAGAIN), Raise (ZMQError EAGAIN), Raise (ZMQError EAGAIN), Return ''m''])
        2 (snd (recv
        (scripted [Raise (ZMQError EAGAIN), Raise (ZMQError EAGAIN), Raise (ZMQError EAGAIN), Return ''m''])
        init_sock 0 True False)))
     = [(1, True, False), (1, True, False), (1, True, False), (1, True, False)]
   \<and> reader_adds (readable_times
        (scripted [Raise (ZMQError EAGAIN), Raise (ZMQError EAGAIN), Raise (ZMQError EAGAIN), Return ''m''])
        2 (snd (recv
        (scripted [Raise (ZMQError EAGAIN), Raise (ZMQError EAGAIN), Raise (ZMQError EAGAIN), Return ''m''])
        init_sock 0 True False)))
     = 2
   \<and> fst (recv
        (scripted [Raise (ZMQError EAGAIN), Raise (ZMQError EAGAIN), Raise (ZMQError EAGAIN), Return ''m''])
        init_sock 0 True False)
     = Awaiting 0
   \<and> futs (readable_times
        (scripted [Raise (ZMQError EAGAIN), Raise (ZMQError EAGAIN), Raise (ZMQError EAGAIN), Return ''m''])
        2 (snd (recv
        (scripted [Raise (ZMQError EAGAIN), Raise (ZMQError EAGAIN), Raise (ZMQError EAGAIN), Return ''m''])
        init_sock 0 True False))) 0
     = Some (Result (RecvData ''m''))"
proof -
  let ?R = "scripted [Raise (ZMQError EAGAIN), Raise (ZMQError EAGAIN), Raise (ZMQError EAGAIN),
      Return ''m''] :: recv_transport"
  have nb: "(0::int) AND NOBLOCK = 0" by (simp add: NOBLOCK_def)
  have blk: "\<forall>i<3. ?R (length (rcvd init_sock) + i) (0 OR NOBLOCK, True, False)
      = Raise (ZMQError EAGAIN)"
    by (simp add: scripted_def init_sock_def numeral_3_eq_3 less_Suc_eq)
  have ok: "?R (length (rcvd init_sock) + 3) (0 OR NOBLOCK, True, False) = Return ''m''"
    by (simp add: scripted_def init_sock_def)
  from recv_retries [where rtr = ?R and s = init_sock and k = 3, OF nb blk ok, of ]
  show ?thesis
    using nb ok by (simp add: init_sock_def NOBLOCK_def numeral_3_eq_3 numeral_2_eq_2)
qed

text \<open>
  C5. A receive waits on its future with the read callback armed, and the future is
  cancelled. The next firing removes the callback and returns without calling the
  transport; the future stays cancelled, and however often the loop reports the descriptor
  readable afterwards, no receive is made on the transport and nothing is registered again.
\<close>

theorem cancelled_recv_is_skipped:
  assumes "reader s = Some (fut, args)" and "futs s fut = Some Pending"
  shows "futs (cancel s fut) fut = Some Cancelled
     \<and> readable rtr (cancel s fut) = (Return (), (cancel s fut)\<lparr>reader := None\<rparr>)
     \<and> (\<forall>n. rcvd (readable_times rtr n (cancel s fut)) = rcvd s
            \<and> futs (readable_times rtr n (cancel s fut)) fut = Some Cancelled
            \<and> reader_adds (readable_times rtr n (cancel s fut)) = reader_adds s)"
proof -
  let ?c = "cancel s fut"
  have c: "?c = s\<lparr>futs := (futs s)(fut \<mapsto> Cancelled)\<rparr>"
    using assms by (simp add: cancel_def)
  have r: "reader ?c = Some (fut, args)" and f: "futs ?c fut = Some Cancelled"
    using assms by (simp_all add: c)
  have one: "readable rtr ?c = (Return (), ?c\<lparr>reader := None\<rparr>)"
    by (rule readable_cancelled [OF r f])
  have all: "readable_times rtr n ?c = ?c \<or> readable_times rtr n ?c = ?c\<lparr>reader := None\<rparr>" for n
    by (cases n) (simp_all add: one readable_times_unarmed)
  have "rcvd (readable_times rtr n ?c) = rcvd s
      \<and> futs (readable_times rtr n ?c) fut = Some Cancelled
      \<and> reader_adds (readable_times rtr n ?c) = reader_adds s" for n
    using all [of n] by (auto simp: c)
  then show ?thesis using one f by blast
qed

theorem cancelled_recv_is_skipped_witness:
  "reader (snd (recv (scripted []) init_sock 0 True False)) = Some (0, 1, True, False)
   \<and> futs (snd (recv (scripted []) init_sock 0 True False)) 0 = Some Pending
   \<and> futs (cancel (snd (recv (scripted []) init_sock 0 True False)) 0) 0 = Some Cancelled
   \<and> fst (readable (scripted [Raise (ZMQError EAGAIN), Raise (ZMQError EAGAIN), Return ''m''])
        (cancel (snd (recv (scripted []) init_sock 0 True False)) 0)) = Return ()
   \<and> rcvd (readable_times (scripted [Raise (ZMQError EAGAIN), Raise (ZMQError EAGAIN), Return ''m''])
        4 (cancel (snd (recv (scripted []) init_sock 0 True False)) 0))
     = [(1, True, False), (1, True, False)]
   \<and> futs (readable_times (scripted [Raise (ZMQError EAGAIN), Raise (ZMQError EAGAIN), Return ''m''])
        4 (cancel (snd (recv (scripted []) init_sock 0 True False)) 0)) 0
     = Some Cancelled"
proof -
  let ?S = "snd (recv (scripted []) init_sock 0 True False)"
  let ?R = "scripted [Raise (ZMQError EAGAIN), Raise (ZMQError EAGAIN), Return ''m''] :: recv_transport"
  have r: "reader ?S = Some (0, 1, True, False)" and f: "futs ?S 0 = Some Pending"
    and l: "rcvd ?S = [(1, True, False), (1, True, False)]"
    by (simp_all add: eval_defs)
  note th = cancelled_recv_is_skipped [where rtr = ?R, OF r f]
  have c: "futs (cancel ?S 0) 0 = Some Cancelled" using th by blast
  have one: "readable ?R (cancel ?S 0) = (Return (), (cancel ?S 0)\<lparr>reader := None\<rparr>)"
    using th by blast
  have four: "rcvd (readable_times ?R 4 (cancel ?S 0)) = rcvd ?S
      \<and> futs (readable_times ?R 4 (cancel ?S 0)) 0 = Some Cancelled"
    using th by blast
  show ?thesis
    using r f c four l by (simp add: one)
qed

text \<open>
  C6 fails on the code as stated: a firing that ends with an error other than would-block
  returns before the callback is removed. The counterexample: one send is queued, and at
  the firing its send fails; the queue is empty and the write callback is still armed.
\<close>

theorem writer_armed_on_empty_queue:
  "buffer (run (scripted [Raise (ZMQError EAGAIN), Raise (ZMQError 22)]) (scripted []) error_on_last) = []
   \<and> writer (run (scripted [Raise (ZMQError EAGAIN), Raise (ZMQError 22)]) (scripted []) error_on_last)
   \<and> futs (run (scripted [Raise (ZMQError EAGAIN), Raise (ZMQError 22)]) (scripted []) error_on_last) 0
     = Some (Exception (ZMQError 22))"
  by (simp add: error_on_last_def eval_defs u_send_ready.simps)

text \<open>
  C6, as the code has it.
  \<^item> In every state an adapter can reach, at most one write-readiness registration is
    active, and the write callback is armed exactly when one is.
  \<^item> \<open>send\<close> registers the callback exactly when it finds the queue empty, the caller did
    not ask for \<open>NOBLOCK\<close> and its immediate send would block, whether or not a callback is
    armed already; the loop then cancels the handle it held. \<open>_send_ready\<close> registers
    nothing.
  \<^item> A call of \<open>send\<close> never leaves the callback armed over an empty queue, unless it found
    them so.
  \<^item> A firing that returns normally and all of whose transport calls succeeded leaves the
    queue empty and the callback removed.
  \<^item> A firing whose only queued send fails with an error other than would-block leaves the
    queue empty and the callback as it was: still armed.
  \<^item> A firing that finds the queue empty calls no transport and removes the callback: this
    is what the next firing after such an error does.
\<close>

theorem writer_registration:
  "active_writers (run tr rtr evs) \<le> 1
   \<and> writer (run tr rtr evs) = (active_writers (run tr rtr evs) = 1)
   \<and> writer_handles (snd (send tr s (PyBytes b) fl c t)) =
       (if b \<noteq> [] \<and> buffer s = [] \<and> fl AND NOBLOCK = 0
           \<and> tr (length (sent s)) (b, fl OR NOBLOCK, c, t) = Raise (ZMQError EAGAIN)
        then map (\<lambda>h. False) (writer_handles s) @ [True] else writer_handles s)
   \<and> length (writer_handles (snd (u_send_ready tr s))) = length (writer_handles s)
   \<and> (writer (snd (send tr s d fl c t)) \<and> buffer (snd (send tr s d fl c t)) = []
      \<longrightarrow> writer s \<and> buffer s = [])
   \<and> (fst (u_send_ready tr s) = Return ()
        \<and> (\<forall>i. length (sent s) \<le> i \<and> i < length (sent (snd (u_send_ready tr s)))
              \<longrightarrow> (\<exists>r. tr i (snd (sent (snd (u_send_ready tr s)) ! i)) = Return r))
      \<longrightarrow> buffer (snd (u_send_ready tr s)) = [] \<and> \<not> writer (snd (u_send_ready tr s)))
   \<and> (buffer s = [(f, a)] \<and> futs s f = Some Pending \<and> tr (length (sent s)) a = Raise e
        \<and> e \<noteq> ZMQError EAGAIN
      \<longrightarrow> buffer (snd (u_send_ready tr s)) = []
        \<and> writer (snd (u_send_ready tr s)) = writer s)
   \<and> (buffer s = [] \<longrightarrow> u_send_ready tr s = (Return (), remove_writer s)
        \<and> sent (remove_writer s) = sent s \<and> \<not> writer (remove_writer s))"
proof -
  have inv: "active_writers (run tr rtr evs) \<le> 1
      \<and> writer (run tr rtr evs) = (active_writers (run tr rtr evs) = 1)"
    using one_writer_run [of tr rtr evs] by (simp add: one_writer_def)
  have reg: "writer_handles (snd (send tr s (PyBytes b) fl c t)) =
       (if b \<noteq> [] \<and> buffer s = [] \<and> fl AND NOBLOCK = 0
           \<and> tr (length (sent s)) (b, fl OR NOBLOCK, c, t) = Raise (ZMQError EAGAIN)
        then map (\<lambda>h. False) (writer_handles s) @ [True] else writer_handles s)"
    by (rule send_writer_handles)
  have drain: "length (writer_handles (snd (u_send_ready tr s))) = length (writer_handles s)"
    using u_send_ready_registration [of tr s] by auto
  have one: "writer (snd (send tr s d fl c t)) \<and> buffer (snd (send tr s d fl c t)) = []
      \<longrightarrow> writer s \<and> buffer s = []"
    using send_keeps_unarmed [of tr s d fl c t] by blast
  have two: "fst (u_send_ready tr s) = Return ()
        \<and> (\<forall>i. length (sent s) \<le> i \<and> i < length (sent (snd (u_send_ready tr s)))
              \<longrightarrow> (\<exists>r. tr i (snd (sent (snd (u_send_ready tr s)) ! i)) = Return r))
      \<longrightarrow> buffer (snd (u_send_ready tr s)) = [] \<and> \<not> writer (snd (u_send_ready tr s))"
    using successful_drain_unarms [of tr s] by blast
  have three: "buffer s = [(f, a)] \<and> futs s f = Some Pending \<and> tr (length (sent s)) a = Raise e
        \<and> e \<noteq> ZMQError EAGAIN
      \<longrightarrow> buffer (snd (u_send_ready tr s)) = []
        \<and> writer (snd (u_send_ready tr s)) = writer s"
    by (simp add: u_send_ready_err [where tr = tr and rest = "[]"])
  have four: "buffer s = [] \<longrightarrow> u_send_ready tr s = (Return (), remove_writer s)
        \<and> sent (remove_writer s) = sent s \<and> \<not> writer (remove_writer s)"
    by (simp add: u_send_ready_Nil)
  from inv reg drain one two three four show ?thesis by blast
qed

theorem writer_registration_witness:
  "buffer (snd (send (scripted [Raise (ZMQError EAGAIN), Return 7]) init_sock (PyBytes ''a'') 0 True False))
     = [(0, ''a'', 1, True, False)]
   \<and> writer (snd (send (scripted [Raise (ZMQError EAGAIN), Return 7]) init_sock (PyBytes ''a'') 0 True False))
   \<and> fst (u_send_ready (scripted [Raise (ZMQError EAGAIN), Return 7])
        (snd (send (scripted [Raise (ZMQError EAGAIN), Return 7]) init_sock (PyBytes ''a'') 0 True False)))
     = Return ()
   \<and> sent (snd (u_send_ready (scripted [Raise (ZMQError EAGAIN), Return 7])
        (snd (send (scripted [Raise (ZMQError EAGAIN), Return 7]) init_sock (PyBytes ''a'') 0 True False))))
     = [(0, ''a'', 1, True, False), (0, ''a'', 1, True, False)]
   \<and> buffer (snd (u_send_ready (scripted [Raise (ZMQError EAGAIN), Return 7])
        (snd (send (scripted [Raise (ZMQError EAGAIN), Return 7]) init_sock (PyBytes ''a'') 0 True False))))
     = []
   \<and> \<not> writer (snd (u_send_ready (scripted [Raise (ZMQError EAGAIN), Return 7])
        (snd (send (scripted [Raise (ZMQError EAGAIN), Return 7]) init_sock (PyBytes ''a'') 0 True False))))
   \<and> writer (run (scripted [Raise (ZMQError EAGAIN), Raise (ZMQError 22)]) (scripted []) error_on_last)
   \<and> writer_handles (run (scripted [Raise (ZMQError EAGAIN), Raise (ZMQError 22)]) (scripted [])
        error_on_last) = [True]
   \<and> writer_handles (run (scripted [Raise (ZMQError EAGAIN), Raise (ZMQError 22)]) (scripted [])
        send_after_error) = [False, True]
   \<and> active_writers (run (scripted [Raise (ZMQError EAGAIN), Raise (ZMQError 22)]) (scripted [])
        send_after_error) = 1"
proof -
  let ?T = "scripted [Raise (ZMQError EAGAIN), Return 7] :: send_transport"
  let ?S = "snd (send ?T init_sock (PyBytes ''a'') 0 True False)"
  have S: "buffer ?S = [(0, ''a'', 1, True, False)]" "writer ?S"
    "sent ?S = [(0, ''a'', 1, True, False)]"
    by (simp_all add: eval_defs)
  have U: "fst (u_send_ready ?T ?S) = Return ()"
    "sent (snd (u_send_ready ?T ?S)) = [(0, ''a'', 1, True, False), (0, ''a'', 1, True, False)]"
    by (simp_all add: eval_defs u_send_ready.simps)
  have calls: "\<forall>i. length (sent ?S) \<le> i \<and> i < length (sent (snd (u_send_ready ?T ?S)))
      \<longrightarrow> (\<exists>r. ?T i (snd (sent (snd (u_send_ready ?T ?S)) ! i)) = Return r)"
  proof (intro allI impI)
    fix i assume "length (sent ?S) \<le> i \<and> i < length (sent (snd (u_send_ready ?T ?S)))"
    then have "i = 1" by (simp add: S U)
    then show "\<exists>r. ?T i (snd (sent (snd (u_send_ready ?T ?S)) ! i)) = Return r"
      by (simp add: U scripted_def)
  qed
  from writer_registration [where tr = ?T and s = ?S] U(1) calls
  have drained: "buffer (snd (u_send_ready ?T ?S)) = [] \<and> \<not> writer (snd (u_send_ready ?T ?S))"
    by blast
  let ?E = "scripted [Raise (ZMQError EAGAIN), Raise (ZMQError 22)] :: send_transport"
  let ?A = "run ?E (scripted []) error_on_last"
  have A: "buffer ?A = []" "writer ?A" "writer_handles ?A = [True]" "length (sent ?A) = 2"
    by (simp_all add: error_on_last_def eval_defs u_send_ready.simps)
  have blocks: "''b'' \<noteq> [] \<and> buffer ?A = [] \<and> (0::int) AND NOBLOCK = 0
      \<and> ?E (length (sent ?A)) (''b'', 0 OR NOBLOCK, True, False) = Raise (ZMQError EAGAIN)"
    by (simp add: A scripted_def NOBLOCK_def)
  have next_run: "run ?E (scripted []) send_after_error = snd (send ?E ?A (PyBytes ''b'') 0 True False)"
    by (simp add: send_after_error_def run_def)
  from writer_registration [where tr = ?E and s = ?A and b = "''b''" and fl = 0 and c = True
      and t = False] blocks
  have again: "writer_handles (snd (send ?E ?A (PyBytes ''b'') 0 True False))
      = map (\<lambda>h. False) (writer_handles ?A) @ [True]"
    by simp
  have handles: "writer_handles (run ?E (scripted []) send_after_error) = [False, True]"
    using again by (simp add: next_run A)
  have active: "active_writers (run ?E (scripted []) send_after_error) = 1"
    by (simp add: active_writers_def handles)
  show ?thesis
    using S U drained A handles active by simp
qed

text \<open>
  C7. A send of the queue that fails with an error other than would-block fails its own
  future and nothing else: when the head entry's future is pending and its send raises such
  an error, the firing returns normally after this one transport call, the entry's future
  holds the error, every other future is as it was, the remaining entries stay queued in
  their order, and the write callback stays as it was, so that they are tried at the next
  firing.
\<close>

theorem send_error_is_local:
  assumes "buffer s = (f, a) # rest"
    and "tr (length (sent s)) a = Raise e"
    and "e \<noteq> ZMQError EAGAIN"
    and "futs s f = Some Pending"
  shows "fst (u_send_ready tr s) = Return ()
     \<and> buffer (snd (u_send_ready tr s)) = rest
     \<and> sent (snd (u_send_ready tr s)) = sent s @ [(f, a)]
     \<and> futs (snd (u_send_ready tr s)) f = Some (Exception e)
     \<and> (\<forall>g. g \<noteq> f \<longrightarrow> futs (snd (u_send_ready tr s)) g = futs s g)
     \<and> writer (snd (u_send_ready tr s)) = writer s
     \<and> closed (snd (u_send_ready tr s)) = closed s"
  by (simp add: u_send_ready_err [where tr = tr, OF assms])

theorem send_error_is_local_witness:
  "buffer (run (scripted [Raise (ZMQError EAGAIN), Raise (ZMQError 22)]) (scripted []) three_sends)
     = (0, ''a'', 1, True, False) # [(1, ''b'', 1, True, False), (2, ''c'', 1, True, False)]
   \<and> ZMQError 22 \<noteq> ZMQError EAGAIN
   \<and> fst (u_send_ready (scripted [Raise (ZMQError EAGAIN), Raise (ZMQError 22)])
        (run (scripted [Raise (ZMQError EAGAIN), Raise (ZMQError 22)]) (scripted []) three_sends))
     = Return ()
   \<and> buffer (snd (u_send_ready (scripted [Raise (ZMQError EAGAIN), Raise (ZMQError 22)])
        (run (scripted [Raise (ZMQError EAGAIN), Raise (ZMQError 22)]) (scripted []) three_sends)))
     = [(1, ''b'', 1, True, False), (2, ''c'', 1, True, False)]
   \<and> futs (snd (u_send_ready (scripted [Raise (ZMQError EAGAIN), Raise (ZMQError 22)])
        (run (scripted [Raise (ZMQError EAGAIN), Raise (ZMQError 22)]) (scripted []) three_sends))) 0
     = Some (Exception (ZMQError 22))
   \<and> futs (snd (u_send_ready (scripted [Raise (ZMQError EAGAIN), Raise (ZMQError 22)])
        (run (scripted [Raise (ZMQError EAGAIN), Raise (ZMQError 22)]) (scripted []) three_sends))) 1
     = Some Pending
   \<and> futs (snd (u_send_ready (scripted [Raise (ZMQError EAGAIN), Raise (ZMQError 22)])
        (run (scripted [Raise (ZMQError EAGAIN), Raise (ZMQError 22)]) (scripted []) three_sends))) 2
     = Some Pending
   \<and> writer (snd (u_send_ready (scripted [Raise (ZMQError EAGAIN), Raise (ZMQError 22)])
        (run (scripted [Raise (ZMQError EAGAIN), Raise (ZMQError 22)]) (scripted []) three_sends)))"
proof -
  let ?T = "scripted [Raise (ZMQError EAGAIN), Raise (ZMQError 22)] :: send_transport"
  let ?S = "run ?T (scripted []) three_sends"
  have S: "?S = \<lparr> buffer = [(0, ''a'', 1, True, False), (1, ''b'', 1, True, False),
         (2, ''c'', 1, True, False)],
       futs = [0 \<mapsto> Pending, 1 \<mapsto> Pending, 2 \<mapsto> Pending], next_fut = 3, writer = True,
       reader = None, sent = [(0, ''a'', 1, True, False)], rcvd = [], reader_adds = 0,
       closed = False, writer_handles = [True] \<rparr>"
    by (simp add: three_sends_def eval_defs numeral_2_eq_2 numeral_3_eq_3)
  have ne: "ZMQError 22 \<noteq> ZMQError EAGAIN" by (simp add: EAGAIN_def)
  have err: "?T (length (sent ?S)) (''a'', 1, True, False) = Raise (ZMQError 22)"
    by (simp add: S scripted_def)
  from send_error_is_local [of ?S 0 "(''a'', 1, True, False)"
      "[(1, ''b'', 1, True, False), (2, ''c'', 1, True, False)]" ?T "ZMQError 22", OF _ err ne]
  show ?thesis
    using ne by (simp add: S)
qed

text \<open>
  C8 fails on the code as stated: with an empty payload \<open>send\<close> returns \<open>None\<close>, not a
  future.
\<close>

theorem send_empty_returns_no_future:
  "send (scripted [Return 7]) init_sock (PyBytes []) 0 True False = (Return None, init_sock)"
  by (simp add: send_def)

text \<open>
  C8, as the code has it. A call of \<open>send\<close> with an empty payload is a no-op that returns
  no future. A call with a non-empty payload returns the future it has just created
  \<^item> when the queue is not empty: the entry is appended to the queue with the caller's
    flags, the future is pending and no transport call is made;
  \<^item> when the queue is empty and the immediate send succeeds: the future holds its result;
  \<^item> when the queue is empty, the caller did not ask for \<open>NOBLOCK\<close> and the immediate send
    would block: the entry is queued, the future is pending and the write callback armed.
  The call makes at most one transport call, and that one with \<open>NOBLOCK\<close> in its flags, so
  it never blocks the caller.
\<close>

theorem send_returns_future:
  "send tr s (PyBytes []) flags copy track = (Return None, s)
   \<and> (b \<noteq> [] \<and> buffer s \<noteq> [] \<longrightarrow>
        fst (send tr s (PyBytes b) flags copy track) = Return (Some (next_fut s))
        \<and> buffer (snd (send tr s (PyBytes b) flags copy track))
          = buffer s @ [(next_fut s, b, flags, copy, track)]
        \<and> futs (snd (send tr s (PyBytes b) flags copy track)) (next_fut s) = Some Pending
        \<and> sent (snd (send tr s (PyBytes b) flags copy track)) = sent s)
   \<and> (b \<noteq> [] \<and> buffer s = []
        \<and> tr (length (sent s)) (b, flags OR NOBLOCK, copy, track) = Return r \<longrightarrow>
        fst (send tr s (PyBytes b) flags copy track) = Return (Some (next_fut s))
        \<and> buffer (snd (send tr s (PyBytes b) flags copy track)) = []
        \<and> futs (snd (send tr s (PyBytes b) flags copy track)) (next_fut s)
          = Some (Result (SendRes r)))
   \<and> (b \<noteq> [] \<and> buffer s = [] \<and> flags AND NOBLOCK = 0
        \<and> tr (length (sent s)) (b, flags OR NOBLOCK, copy, track) = Raise (ZMQError EAGAIN) \<longrightarrow>
        fst (send tr s (PyBytes b) flags copy track) = Return (Some (next_fut s))
        \<and> buffer (snd (send tr s (PyBytes b) flags copy track))
          = [(next_fut s, b, flags OR NOBLOCK, copy, track)]
        \<and> futs (snd (send tr s (PyBytes b) flags copy track)) (next_fut s) = Some Pending
        \<and> writer (snd (send tr s (PyBytes b) flags copy track)))
   \<and> (sent (snd (send tr s (PyBytes b) flags copy track)) = sent s
        \<or> sent (snd (send tr s (PyBytes b) flags copy track))
          = sent s @ [(next_fut s, b, flags OR NOBLOCK, copy, track)])
   \<and> (flags OR NOBLOCK) AND NOBLOCK \<noteq> 0"
proof -
  have empty: "send tr s (PyBytes []) flags copy track = (Return None, s)"
    by (simp add: send_def)
  have queued: "b \<noteq> [] \<and> buffer s \<noteq> [] \<longrightarrow>
        fst (send tr s (PyBytes b) flags copy track) = Return (Some (next_fut s))
        \<and> buffer (snd (send tr s (PyBytes b) flags copy track))
          = buffer s @ [(next_fut s, b, flags, copy, track)]
        \<and> futs (snd (send tr s (PyBytes b) flags copy track)) (next_fut s) = Some Pending
        \<and> sent (snd (send tr s (PyBytes b) flags copy track)) = sent s"
    by (simp add: send_def new_future_def)
  have fast: "b \<noteq> [] \<and> buffer s = []
        \<and> tr (length (sent s)) (b, flags OR NOBLOCK, copy, track) = Return r \<longrightarrow>
        fst (send tr s (PyBytes b) flags copy track) = Return (Some (next_fut s))
        \<and> buffer (snd (send tr s (PyBytes b) flags copy track)) = []
        \<and> futs (snd (send tr s (PyBytes b) flags copy track)) (next_fut s)
          = Some (Result (SendRes r))"
    by (cases "flags AND NOBLOCK = 0")
       (auto simp: send_def new_future_def super_send_def set_result_def Let_def noblock_kept)
  have blocked: "b \<noteq> [] \<and> buffer s = [] \<and> flags AND NOBLOCK = 0
        \<and> tr (length (sent s)) (b, flags OR NOBLOCK, copy, track) = Raise (ZMQError EAGAIN) \<longrightarrow>
        fst (send tr s (PyBytes b) flags copy track) = Return (Some (next_fut s))
        \<and> buffer (snd (send tr s (PyBytes b) flags copy track))
          = [(next_fut s, b, flags OR NOBLOCK, copy, track)]
        \<and> futs (snd (send tr s (PyBytes b) flags copy track)) (next_fut s) = Some Pending
        \<and> writer (snd (send tr s (PyBytes b) flags copy track))"
    by (auto simp: send_def new_future_def super_send_def Let_def)
  have calls: "sent (snd (send tr s (PyBytes b) flags copy track)) = sent s
        \<or> sent (snd (send tr s (PyBytes b) flags copy track))
          = sent s @ [(next_fut s, b, flags OR NOBLOCK, copy, track)]"
    by (cases "flags AND NOBLOCK = 0")
       (auto simp: send_def new_future_def super_send_def set_result_def set_exception_def
          Let_def noblock_kept
          split: pyresult.splits exc.splits if_splits prod.splits sum.splits)
  from empty queued fast blocked calls noblock_forced [of flags] show ?thesis by blast
qed

theorem send_returns_future_witness:
  "''a'' \<noteq> []
   \<and> fst (send (scripted []) init_sock (PyBytes ''a'') 0 True False) = Return (Some 0)
   \<and> buffer (snd (send (scripted []) init_sock (PyBytes ''a'') 0 True False))
     = [(0, ''a'', 1, True, False)]
   \<and> futs (snd (send (scripted []) init_sock (PyBytes ''a'') 0 True False)) 0 = Some Pending
   \<and> writer (snd (send (scripted []) init_sock (PyBytes ''a'') 0 True False))"
proof -
  let ?T = "scripted [] :: send_transport"
  have h: "''a'' \<noteq> [] \<and> buffer init_sock = [] \<and> (0::int) AND NOBLOCK = 0
      \<and> ?T (length (sent init_sock)) (''a'', 0 OR NOBLOCK, True, False) = Raise (ZMQError EAGAIN)"
    by (simp add: init_sock_def NOBLOCK_def scripted_def)
  from send_returns_future [of ?T init_sock 0 True False "''a''"] h
  have "fst (send ?T init_sock (PyBytes ''a'') 0 True False) = Return (Some (next_fut init_sock))
        \<and> buffer (snd (send ?T init_sock (PyBytes ''a'') 0 True False))
          = [(next_fut init_sock, ''a'', 0 OR NOBLOCK, True, False)]
        \<and> futs (snd (send ?T init_sock (PyBytes ''a'') 0 True False)) (next_fut init_sock) = Some Pending
        \<and> writer (snd (send ?T init_sock (PyBytes ''a'') 0 True False))"
    by blast
  then show ?thesis
    by (simp add: init_sock_def NOBLOCK_def)
qed

text \<open>
  C9 fails on the code: the drain never looks at the state of an entry's future before it
  calls the transport. A send is queued and its future cancelled; at the next firing the
  transport's send is called for the entry all the same, and the firing ends in the
  \<open>InvalidStateError\<close> of settling a cancelled future.
\<close>

theorem cancelled_send_is_sent:
  "buffer (run (scripted [Raise (ZMQError EAGAIN), Return 7]) (scripted []) cancelled_send)
     = [(0, ''a'', 1, True, False)]
   \<and> futs (run (scripted [Raise (ZMQError EAGAIN), Return 7]) (scripted []) cancelled_send) 0
     = Some Cancelled
   \<and> sent (run (scripted [Raise (ZMQError EAGAIN), Return 7]) (scripted []) cancelled_send)
     = [(0, ''a'', 1, True, False)]
   \<and> fst (writable (scripted [Raise (ZMQError EAGAIN), Return 7])
        (run (scripted [Raise (ZMQError EAGAIN), Return 7]) (scripted []) cancelled_send))
     = Raise InvalidStateError
   \<and> sent (snd (writable (scripted [Raise (ZMQError EAGAIN), Return 7])
        (run (scripted [Raise (ZMQError EAGAIN), Return 7]) (scripted []) cancelled_send)))
     = [(0, ''a'', 1, True, False), (0, ''a'', 1, True, False)]"
  by (simp add: cancelled_send_def eval_defs u_send_ready.simps)

text \<open>
  C10. The payload of \<open>send\<close> must be a bytes object: with any other payload the call
  fails its assertion, and nothing has happened: no transport call, no change of the queue,
  no future created (the state is the one before the call).
\<close>

theorem send_non_bytes_asserts:
  "\<not> isinstance_bytes data \<Longrightarrow> send tr s data flags copy track = (Raise AssertionError, s)"
  by (cases data) (simp_all add: send_def)

theorem send_non_bytes_asserts_witness:
  "\<not> isinstance_bytes (PyStr ''abc'')
   \<and> send (\<lambda>n a. Return 0) init_sock (PyStr ''abc'') 0 True False = (Raise AssertionError, init_sock)"
  using send_non_bytes_asserts [of "PyStr ''abc''" "\<lambda>n a. Return 0" init_sock 0 True False]
  by simp

end
